theory Spec2Isabelle
  imports Main "HOL-Library.FSet"
begin

section \<open>Python strings and the tables of the interpreter\<close>

text \<open>
  A Python \<open>str\<close> is a sequence of Unicode code points; slicing, \<open>len\<close> and the regular
  expressions of \<open>SplitPayPDF.py\<close> all count code points. A string is therefore a list
  of naturals, and an ASCII literal of the source is written \<open>asc ''...''\<close>. Where a
  single character is tested, its code point is written out: 10 line feed, 13 carriage
  return, 32 blank, 40 and 41 the parentheses, 43 plus, 45 hyphen, 46 dot, 47 slash,
  91 and 93 the square brackets, 95 underscore.
\<close>

type_synonym str = "nat list"

definition asc :: "string \<Rightarrow> str" where
  "asc s = map of_char s"

text \<open>
  The character classes \<open>\d\<close> and \<open>\w\<close> of \<open>re\<close> and the method \<open>str.lower\<close> consult the
  Unicode database of the interpreter, which is not part of the repository. Their behaviour
  on ASCII is fixed below; their behaviour beyond ASCII is a parameter, so that every
  theorem holds for whatever tables the interpreter ships with. In the Unicode database
  no code point is both white space and a decimal digit; the matcher of the next section
  follows the regular expression under that proviso. The record also holds the setting
  \<open>sys.get_int_max_str_digits()\<close> of the interpreter, which bounds the number of digits
  \<open>int\<close> converts: it is 4300 unless the user changes it, and 0 stands for no bound.
\<close>

record ucd =
  u_decimal :: "nat \<Rightarrow> nat option"  \<comment> \<open>value of a non-ASCII decimal digit\<close>
  u_alnum :: "nat \<Rightarrow> bool"  \<comment> \<open>\<open>str.isalnum\<close> of a non-ASCII code point\<close>
  u_lower :: "str \<Rightarrow> str"  \<comment> \<open>\<open>str.lower\<close> of a string that is not pure ASCII\<close>
  int_max_str_digits :: nat  \<comment> \<open>\<open>sys.get_int_max_str_digits()\<close>; 0 for no limit\<close>

text \<open>
  The exceptions the functions below can raise. The subclasses of \<open>OSError\<close> are those
  \<open>os.makedirs\<close> raises.
\<close>

datatype os_error =
  FileNotFoundError | FileExistsError | NotADirectoryError | PermissionError | OtherOSError

datatype py_error = IndexError | ValueError | TypeError | OSError os_error

text \<open>\<open>str.isspace\<close>, which is also the class \<open>\s\<close>: the list is the same in every Python 3.\<close>

definition is_space :: "nat \<Rightarrow> bool" where
  "is_space c \<longleftrightarrow>
     (9 \<le> c \<and> c \<le> 13) \<or> (28 \<le> c \<and> c \<le> 32) \<or> c = 133 \<or> c = 160 \<or> c = 5760 \<or>
     (8192 \<le> c \<and> c \<le> 8202) \<or> c = 8232 \<or> c = 8233 \<or> c = 8239 \<or> c = 8287 \<or> c = 12288"

definition is_decimal :: "ucd \<Rightarrow> nat \<Rightarrow> bool" where
  "is_decimal U c = (if c < 128 then 48 \<le> c \<and> c \<le> 57 else u_decimal U c \<noteq> None)"

definition digit_value :: "ucd \<Rightarrow> nat \<Rightarrow> nat" where
  "digit_value U c =
     (if c < 128 then c - 48 else (case u_decimal U c of Some v \<Rightarrow> v | None \<Rightarrow> 0))"

definition is_word :: "ucd \<Rightarrow> nat \<Rightarrow> bool" where
  "is_word U c =
     (if c < 128 then (48 \<le> c \<and> c \<le> 57) \<or> (65 \<le> c \<and> c \<le> 90) \<or> c = 95 \<or> (97 \<le> c \<and> c \<le> 122)
      else u_alnum U c)"

definition ascii_lower :: "nat \<Rightarrow> nat" where
  "ascii_lower c = (if 65 \<le> c \<and> c \<le> 90 then c + 32 else c)"

definition py_lower :: "ucd \<Rightarrow> str \<Rightarrow> str" where
  "py_lower U s = (if list_all (\<lambda>c. c < 128) s then map ascii_lower s else u_lower U s)"

text \<open>
  \<open>int(m.group(k))\<close> on a run of decimal digits. The interpreter counts the digits, leading
  zeros included, and raises \<open>ValueError\<close> when there are more of them than its limit
  allows (\<open>int('1' * 4301)\<close> raises under the default limit of 4300); within the limit the
  result is the number the digits denote. \<open>sys.set_int_max_str_digits\<close> accepts 0, which
  lifts the limit, and values of at least 640.
\<close>

definition digits_value :: "ucd \<Rightarrow> str \<Rightarrow> nat" where
  "digits_value U ds = foldl (\<lambda>a c. 10 * a + digit_value U c) 0 ds"

definition within_int_limit :: "ucd \<Rightarrow> str \<Rightarrow> bool" where
  "within_int_limit U ds \<longleftrightarrow> int_max_str_digits U = 0 \<or> length ds \<le> int_max_str_digits U"

definition int_of_digits :: "ucd \<Rightarrow> str \<Rightarrow> py_error + nat" where
  "int_of_digits U ds =
     (if within_int_limit U ds then Inr (digits_value U ds) else Inl ValueError)"

text \<open>
  \<open>str(counter)\<close> and the numbers an f-string renders: page numbers and counters of
  existing names. The interpreter puts the same limit on this conversion; it is taken as
  exact, for a number of more than 4300 digits is beyond every page count and every count
  of existing files.
\<close>

fun str_of_nat :: "nat \<Rightarrow> str" where
  "str_of_nat n = (if n < 10 then [48 + n] else str_of_nat (n div 10) @ [48 + n mod 10])"

declare str_of_nat.simps [simp del]

definition strip :: "str \<Rightarrow> str" where
  "strip s = rev (dropWhile is_space (rev (dropWhile is_space s)))"

text \<open>\<open>xs[i]\<close> raises \<open>IndexError\<close> outside \<open>-len(xs) \<le> i < len(xs)\<close>.\<close>

definition py_index :: "'a list \<Rightarrow> int \<Rightarrow> py_error + 'a" where
  "py_index xs i =
     (if 0 \<le> i \<and> i < int (length xs) then Inr (xs ! nat i)
      else if i < 0 \<and> - int (length xs) \<le> i then Inr (xs ! nat (int (length xs) + i))
      else Inl IndexError)"

section \<open>Pattern builder\<close>

text \<open>
  \<open>LINE_TOKEN_RE = re.compile(r"\[LINE\s+(\d+)(?:\((\d+)(?:/(\d+))?\))?\]")\<close>, compiled
  without flags. The matcher below tries the expression at the head of a string and
  returns the three groups and the text after the match. The expression is deterministic:
  \<open>\s+\<close> and \<open>\d+\<close> are greedy and what must follow each of them lies outside its class
  (a digit after the blanks; one of the parenthesis, slash and bracket after the digits),
  so giving characters back can never turn a failed attempt into a match.
\<close>

fun strip_prefix :: "str \<Rightarrow> str \<Rightarrow> str option" where
  "strip_prefix [] s = Some s"
| "strip_prefix (p # ps) [] = None"
| "strip_prefix (p # ps) (c # cs) = (if p = c then strip_prefix ps cs else None)"

definition match_range :: "ucd \<Rightarrow> str \<Rightarrow> (str \<times> str option \<times> str) option" where
  "match_range U s =
     (case s of
        [] \<Rightarrow> None
      | c # t \<Rightarrow>
          if c \<noteq> 40 then None
          else
            let g2 = takeWhile (is_decimal U) t; t2 = dropWhile (is_decimal U) t in
            if g2 = [] then None
            else
              (case t2 of
                 [] \<Rightarrow> None
               | c2 # t3 \<Rightarrow>
                   if c2 = 41 then Some (g2, None, t3)
                   else if c2 = 47 then
                     let g3 = takeWhile (is_decimal U) t3; t4 = dropWhile (is_decimal U) t3 in
                     if g3 = [] then None
                     else
                       (case t4 of
                          [] \<Rightarrow> None
                        | c4 # t5 \<Rightarrow> if c4 = 41 then Some (g2, Some g3, t5) else None)
                   else None))"

definition match_line_token ::
  "ucd \<Rightarrow> str \<Rightarrow> ((str \<times> str option \<times> str option) \<times> str) option" where
  "match_line_token U s =
     (case strip_prefix (asc ''[LINE'') s of
        None \<Rightarrow> None
      | Some s1 \<Rightarrow>
          let ws = takeWhile is_space s1; s2 = dropWhile is_space s1 in
          if ws = [] then None
          else
            let g1 = takeWhile (is_decimal U) s2; s3 = dropWhile (is_decimal U) s2 in
            if g1 = [] then None
            else
              (case match_range U s3 of
                 Some (g2, g3, s4) \<Rightarrow>
                   (case s4 of
                      [] \<Rightarrow> None
                    | c # rest \<Rightarrow> if c = 93 then Some ((g1, Some g2, g3), rest) else None)
               | None \<Rightarrow>
                   (case s3 of
                      [] \<Rightarrow> None
                    | c # rest \<Rightarrow> if c = 93 then Some ((g1, None, None), rest) else None)))"

text \<open>The inner function \<open>replace_token\<close> of \<open>build_value_from_line_pattern\<close>.\<close>

definition replace_token ::
  "ucd \<Rightarrow> str list \<Rightarrow> str \<times> str option \<times> str option \<Rightarrow> py_error + str" where
  "replace_token U lines m =
     (case m of (g1, start_pos, end_pos) \<Rightarrow>
        (case int_of_digits U g1 of
           Inl e \<Rightarrow> Inl e
         | Inr n \<Rightarrow>
             let line_no = int n in
             if line_no < 0 \<or> line_no \<ge> int (length lines) then Inr []
             else
               (case py_index lines line_no of
                  Inl e \<Rightarrow> Inl e
                | Inr text \<Rightarrow>
                    (case start_pos of
                       None \<Rightarrow> Inr (strip text)
                     | Some sp \<Rightarrow>
                         if sp = [] then Inr (strip text)
                         else
                           (case int_of_digits U sp of
                              Inl e \<Rightarrow> Inl e
                            | Inr s \<Rightarrow>
                                let start = nat (max (int s - 1) 0) in
                                (case end_pos of
                                   None \<Rightarrow> Inr (strip (drop start text))
                                 | Some ep \<Rightarrow>
                                     if ep = [] then Inr (strip (drop start text))
                                     else
                                       (case int_of_digits U ep of
                                          Inl e \<Rightarrow> Inl e
                                        | Inr stop \<Rightarrow>
                                            Inr (strip (take (stop - start)
                                                          (drop start text))))))))))"

lemma strip_prefix_length:
  "strip_prefix p s = Some r \<Longrightarrow> length r \<le> length s"
  by (induction p s rule: strip_prefix.induct) (auto split: if_splits)

lemma match_range_length:
  assumes "match_range U s = Some (g2, g3, r)"
  shows "length r < length s"
proof -
  have d: "length (dropWhile P xs) \<le> length xs" for P and xs :: str
    by (induction xs) auto
  from assms obtain t where s: "s = 40 # t"
    by (auto simp: match_range_def split: list.splits if_splits)
  from assms s have "length r < length (dropWhile (is_decimal U) t)"
    using d [of "is_decimal U" "tl (dropWhile (is_decimal U) t)"]
    by (auto simp: match_range_def Let_def split: list.splits if_splits)
  with d [of "is_decimal U" t] s show ?thesis by simp
qed

lemma match_line_token_length:
  assumes "match_line_token U s = Some (m, rest)"
  shows "length rest < length s"
proof -
  have d: "length (dropWhile P xs) \<le> length xs" for P and xs :: str
    by (induction xs) auto
  from assms obtain s1 where s1: "strip_prefix (asc ''[LINE'') s = Some s1"
    by (auto simp: match_line_token_def split: option.splits)
  define s3 where "s3 = dropWhile (is_decimal U) (dropWhile is_space s1)"
  have l3: "length s3 \<le> length s"
    using d [of "is_decimal U" "dropWhile is_space s1"] d [of is_space s1]
      strip_prefix_length [OF s1] by (simp add: s3_def)
  from assms s1 have "length rest < length s3"
    by (auto simp: match_line_token_def Let_def s3_def split: option.splits list.splits if_splits
        dest!: match_range_length)
  with l3 show ?thesis by simp
qed

function sub_tokens :: "ucd \<Rightarrow> str list \<Rightarrow> str \<Rightarrow> py_error + str" where
  "sub_tokens U lines [] = Inr []"
| "sub_tokens U lines (c # cs) =
     (case match_line_token U (c # cs) of
        None \<Rightarrow>
          (case sub_tokens U lines cs of Inl e \<Rightarrow> Inl e | Inr r \<Rightarrow> Inr (c # r))
      | Some (m, rest) \<Rightarrow>
          (case replace_token U lines m of
             Inl e \<Rightarrow> Inl e
           | Inr v \<Rightarrow>
               (case sub_tokens U lines rest of Inl e \<Rightarrow> Inl e | Inr r \<Rightarrow> Inr (v @ r))))"
  by pat_completeness auto
termination
  by (relation "measure (\<lambda>(U, lines, s). length s)")
    (auto dest: match_line_token_length)

definition build_value_from_line_pattern :: "ucd \<Rightarrow> str list \<Rightarrow> str \<Rightarrow> py_error + str" where
  "build_value_from_line_pattern U lines pattern = sub_tokens U lines pattern"

text \<open>
  The three shapes of a token as the help text of the program writes them: \<open>[LINE n]\<close>,
  \<open>[LINE n(s)]\<close> and \<open>[LINE n(s/e)]\<close>, with the numbers in decimal.
\<close>

definition line_token :: "nat \<Rightarrow> (nat \<times> nat option) option \<Rightarrow> str" where
  "line_token n r =
     asc ''[LINE '' @ str_of_nat n @
     (case r of
        None \<Rightarrow> []
      | Some (s, None) \<Rightarrow> asc ''('' @ str_of_nat s @ asc '')''
      | Some (s, Some e) \<Rightarrow> asc ''('' @ str_of_nat s @ asc ''/'' @ str_of_nat e @ asc '')'') @
     asc '']''"


section \<open>Utilities\<close>

text \<open>
  \<open>os.path\<close> is modelled as \<open>posixpath\<close>: \<open>join\<close> of two components, \<open>splitext\<close> (the
  last dot of the last component, leading dots of that component not counting) and
  \<open>basename\<close>.
\<close>

definition path_join :: "str \<Rightarrow> str \<Rightarrow> str" where
  "path_join a b =
     (if (case b of [] \<Rightarrow> False | c # _ \<Rightarrow> c = 47) then b
      else if a = [] \<or> last a = 47 then a @ b
      else a @ [47] @ b)"

definition rfind :: "nat \<Rightarrow> str \<Rightarrow> int" where
  "rfind c p =
     (if c \<in> set p then int (length p) - 1 - int (length (takeWhile (\<lambda>x. x \<noteq> c) (rev p)))
      else - 1)"

definition splitext :: "str \<Rightarrow> str \<times> str" where
  "splitext p =
     (let sepIndex = rfind 47 p; dotIndex = rfind 46 p in
      if dotIndex > sepIndex \<and>
         list_ex (\<lambda>c. c \<noteq> 46) (take (nat (dotIndex - (sepIndex + 1))) (drop (nat (sepIndex + 1)) p))
      then (take (nat dotIndex) p, drop (nat dotIndex) p)
      else (p, []))"


definition endswith :: "str \<Rightarrow> str \<Rightarrow> bool" where
  "endswith s suf \<longleftrightarrow> length suf \<le> length s \<and> drop (length s - length suf) s = suf"

text \<open>\<open>re.sub(r"[^\w\s-]", "", name).strip().replace(" ", "_")\<close>\<close>

definition sanitize_filename :: "ucd \<Rightarrow> str \<Rightarrow> str" where
  "sanitize_filename U name =
     map (\<lambda>c. if c = 32 then 95 else c)
       (strip (filter (\<lambda>c. is_word U c \<or> is_space c \<or> c = 45) name))"

text \<open>
  \<open>str.replace(old, new)\<close>: occurrences are replaced from the left and do not overlap; an
  empty \<open>old\<close> matches before every character and at the end.
\<close>

lemma strip_prefix_length_eq:
  "strip_prefix p s = Some r \<Longrightarrow> length s = length p + length r"
  by (induction p s rule: strip_prefix.induct) (auto split: if_splits)

function replace_str :: "str \<Rightarrow> str \<Rightarrow> str \<Rightarrow> str" where
  "replace_str [] new s = new @ concat (map (\<lambda>c. c # new) s)"
| "replace_str (a # old) new [] = []"
| "replace_str (a # old) new (c # cs) =
     (case strip_prefix (a # old) (c # cs) of
        Some rest \<Rightarrow> new @ replace_str (a # old) new rest
      | None \<Rightarrow> c # replace_str (a # old) new cs)"
  by pat_completeness auto
termination
  by (relation "measure (\<lambda>(old, new, s). length s)")
    (auto split: if_splits dest: strip_prefix_length_eq)

text \<open>
  The substitution table of \<open>normalize_folder_name\<close>, key by key as the source file spells
  them: every key is a string of two code points (U+0192 or U+2248 followed by a second
  one). A \<open>dict\<close> iterates in insertion order.
\<close>

definition repl :: "(str \<times> str) list" where
  "repl =
     [([402, 231], asc ''c''), ([402, 225], asc ''c''), ([8776, 230], asc ''z''),
      ([8776, 176], asc ''s''), ([402, 235], asc ''d''), ([402, 229], asc ''c''),
      ([402, 220], asc ''c''), ([8776, 937], asc ''z''), ([8776, 8224], asc ''s''),
      ([402, 234], asc ''d'')]"

definition normalize_folder_name :: "ucd \<Rightarrow> str \<Rightarrow> str" where
  "normalize_folder_name U name =
     py_lower U (filter (is_word U) (foldl (\<lambda>name (k, v). replace_str k v name) name repl))"

text \<open>
  The file system as the functions below see it: the finite set of paths for which
  \<open>os.path.exists\<close> answers \<open>True\<close>.
\<close>

partial_function (option) unique_path_loop :: "str fset \<Rightarrow> str \<Rightarrow> str \<Rightarrow> nat \<Rightarrow> str option" where
  "unique_path_loop fs root ext counter =
     (if root @ asc ''_'' @ str_of_nat counter @ ext |\<notin>| fs
      then Some (root @ asc ''_'' @ str_of_nat counter @ ext)
      else unique_path_loop fs root ext (counter + 1))"

declare unique_path_loop.simps [code]

definition get_unique_path :: "str fset \<Rightarrow> str \<Rightarrow> str option" where
  "get_unique_path fs base_path =
     (if base_path |\<notin>| fs then Some base_path
      else (case splitext base_path of (root, ext) \<Rightarrow> unique_path_loop fs root ext 1))"

partial_function (option) auditlog_path_loop :: "str fset \<Rightarrow> str \<Rightarrow> str \<Rightarrow> nat \<Rightarrow> str option" where
  "auditlog_path_loop fs outdir date_str counter =
     (if path_join outdir (asc ''audit_log_'' @ date_str @ asc ''_'' @ str_of_nat counter @ asc ''.csv'') |\<notin>| fs
      then Some (path_join outdir
                   (asc ''audit_log_'' @ date_str @ asc ''_'' @ str_of_nat counter @ asc ''.csv''))
      else auditlog_path_loop fs outdir date_str (counter + 1))"

declare auditlog_path_loop.simps [code]

definition get_unique_auditlog_path :: "str fset \<Rightarrow> str \<Rightarrow> str \<Rightarrow> str option" where
  "get_unique_auditlog_path fs date_str outdir =
     (let base = path_join outdir (asc ''audit_log_'' @ date_str @ asc ''.csv'') in
      if base |\<notin>| fs then Some base else auditlog_path_loop fs outdir date_str 1)"

text \<open>\<open>build_filename_from_line_pattern\<close>\<close>

definition build_filename_from_line_pattern :: "ucd \<Rightarrow> str list \<Rightarrow> str \<Rightarrow> py_error + str" where
  "build_filename_from_line_pattern U lines pattern =
     (case build_value_from_line_pattern U lines pattern of
        Inl e \<Rightarrow> Inl e
      | Inr raw \<Rightarrow>
          if raw = [] then Inr []
          else
            let raw2 = (if \<not> endswith (py_lower U raw) (asc ''.pdf'') then raw @ asc ''.pdf'' else raw)
            in (case splitext raw2 of (base, ext) \<Rightarrow> Inr (sanitize_filename U base @ ext)))"


section \<open>The world outside the program\<close>

text \<open>
  Everything the engine does to its surroundings is recorded, in order, as a trace of
  effects; the set of existing paths is kept beside it because the allocation loops read
  it. \<open>os.makedirs\<close> and saving a document make their path exist; the parent directories
  that come into being on the way, and other spellings of the same path, are not tracked.
  The calls into the PDF library and \<open>open\<close> are taken to succeed. \<open>os.makedirs\<close> raises
  \<open>FileNotFoundError\<close> for the empty path; on any other path it fails when the
  environment says so, given the paths that exist (\<open>FileExistsError\<close> for a path that is
  a regular file, \<open>PermissionError\<close>, ...), and no caller in the source catches its error.
  The two calls whose failure the source handles itself (\<open>DataFrame.to_csv\<close> and
  \<open>subprocess.Popen\<close>) fail when the environment says so. A log line is identified by the
  f-string that produced it and the values put into it.
\<close>

datatype log_msg =
    SplitStarted str
  | NoPages
  | DebugPage nat
  | DebugLine nat str
  | DebugRule
  | ManualReviewNeeded nat
  | ManualReviewExcerpt nat str
  | SafeWouldSave nat str
  | PageSaved nat str
  | AuditLogSaved str
  | AuditLogFailed
  | SafeNoAudit
  | SplitFinished nat nat nat
  | AutoOpenFailed
  | ExtractStarted str
  | ExtractedSingle nat str
  | ExtractedPage nat str
  | ExtractedPages nat nat str

record audit_row =
  Page :: nat
  Status :: str
  Filename :: str
  FolderRaw :: str
  FolderName :: str
  Note :: str

datatype effect =
    AppLog log_msg  \<comment> \<open>\<open>write_app_log\<close>: the file \<open>APP_LOG_PATH\<close> opened and a line appended\<close>
  | Callback log_msg  \<comment> \<open>\<open>log_callback(msg)\<close>\<close>
  | MakeDirs str  \<comment> \<open>\<open>os.makedirs(path, exist_ok=True)\<close> has made the path exist\<close>
  | SavePdf str nat nat  \<comment> \<open>\<open>insert_pdf(doc, from_page, to_page)\<close> saved at the path\<close>
  | WriteCsv str "audit_row list"  \<comment> \<open>\<open>DataFrame(rows).to_csv(path)\<close>\<close>
  | Popen str  \<comment> \<open>the file browser opened on a folder\<close>

record world =
  files :: "str fset"
  trace :: "effect list"

record environment =
  tables :: ucd
  date_str :: str  \<comment> \<open>\<open>datetime.now().strftime("%Y-%m-%d")\<close>\<close>
  to_csv_fails :: bool
  popen_fails :: bool
  makedirs_error :: "str fset \<Rightarrow> str \<Rightarrow> os_error option"
    \<comment> \<open>the error of \<open>os.makedirs(path, exist_ok=True)\<close>, if any, given the existing paths\<close>

definition write_app_log :: "log_msg \<Rightarrow> world \<Rightarrow> world" where
  "write_app_log line w = w\<lparr>trace := trace w @ [AppLog line]\<rparr>"

text \<open>The inner function \<open>log\<close>; the flag says whether a \<open>log_callback\<close> was passed.\<close>

definition log :: "bool \<Rightarrow> log_msg \<Rightarrow> world \<Rightarrow> world" where
  "log has_callback msg w =
     (let w1 = write_app_log msg w in
      if has_callback then w1\<lparr>trace := trace w1 @ [Callback msg]\<rparr> else w1)"

definition makedirs :: "environment \<Rightarrow> str \<Rightarrow> world \<Rightarrow> py_error + world" where
  "makedirs E path w =
     (if path = [] then Inl (OSError FileNotFoundError)
      else
        (case makedirs_error E (files w) path of
           Some e \<Rightarrow> Inl (OSError e)
         | None \<Rightarrow>
             Inr (w\<lparr>files := finsert path (files w), trace := trace w @ [MakeDirs path]\<rparr>)))"

definition save_pdf :: "str \<Rightarrow> nat \<Rightarrow> nat \<Rightarrow> world \<Rightarrow> world" where
  "save_pdf path from_page to_page w =
     w\<lparr>files := finsert path (files w), trace := trace w @ [SavePdf path from_page to_page]\<rparr>"

definition auto_open_folder :: "environment \<Rightarrow> bool \<Rightarrow> str \<Rightarrow> world \<Rightarrow> world" where
  "auto_open_folder E has_callback dir w =
     (if popen_fails E then log has_callback AutoOpenFailed w
      else w\<lparr>trace := trace w @ [Popen dir]\<rparr>)"

text \<open>
  \<open>str.splitlines\<close>: the line boundaries are LF, CR, CR LF, VT, FF, FS, GS, RS, NEL, LS
  and PS; a final boundary does not open an empty last line.
\<close>

definition is_linebreak :: "nat \<Rightarrow> bool" where
  "is_linebreak c \<longleftrightarrow>
     (10 \<le> c \<and> c \<le> 13) \<or> (28 \<le> c \<and> c \<le> 30) \<or> c = 133 \<or> c = 8232 \<or> c = 8233"

fun splitlines_from :: "str \<Rightarrow> str \<Rightarrow> str list" where
  "splitlines_from cur [] = (if cur = [] then [] else [rev cur])"
| "splitlines_from cur (c # cs) =
     (if c = 13 \<and> (case cs of [] \<Rightarrow> False | d # _ \<Rightarrow> d = 10)
      then rev cur # splitlines_from [] (tl cs)
      else if is_linebreak c then rev cur # splitlines_from [] cs
      else splitlines_from (c # cur) cs)"

definition splitlines :: "str \<Rightarrow> str list" where
  "splitlines text = splitlines_from [] text"

section \<open>Full payroll engine\<close>

record split_args =
  inp_path :: str
  out_dir :: str
  file_pattern :: str
  folder_pattern :: str
  save_to_folders :: bool
  safe_mode :: bool
  auto_open :: bool
  has_callback :: bool

text \<open>
  The values one iteration of the page loop computes before it acts on them: \<open>filename\<close>,
  \<open>raw_folder\<close>, \<open>foldername\<close>, whether the page has a valid file name, and \<open>target_dir\<close>
  (assigned only for a page with a valid name).
\<close>

record naming_decision =
  resolved :: bool
  file_name :: str
  folder_raw :: str
  folder_name :: str
  target_directory :: "str option"

text \<open>
  The variables the loop updates. \<open>decisions\<close> is not in the source: it keeps, page by
  page, the record above.
\<close>

record loop_state =
  audit_rows :: "audit_row list"
  success :: nat
  failed :: nat
  decisions :: "naming_decision list"

record run_summary =
  sum_total :: nat
  sum_success :: nat
  sum_failed :: nat
  sum_audit_path :: "str option"

text \<open>
  The loop of lines 376 to 381, which looks for a free name inside \<open>target_dir\<close>. It runs
  as long as the candidates exist.
\<close>

partial_function (option) final_name_loop ::
  "str fset \<Rightarrow> str \<Rightarrow> str \<Rightarrow> str \<Rightarrow> str \<Rightarrow> nat \<Rightarrow> str option" where
  "final_name_loop fs target_dir base ext final_name counter =
     (if path_join target_dir final_name |\<in>| fs
      then final_name_loop fs target_dir base ext
             (base @ asc ''_'' @ str_of_nat counter @ ext) (counter + 1)
      else Some final_name)"

declare final_name_loop.simps [code]

definition debug_dump :: "bool \<Rightarrow> nat \<Rightarrow> str list \<Rightarrow> world \<Rightarrow> world" where
  "debug_dump cb page_no lines w =
     log cb DebugRule
       (foldl (\<lambda>w (idx, line). log cb (DebugLine idx line) w)
          (log cb (DebugPage page_no) w) (zip [0..<length lines] lines))"

text \<open>The branch for a page without a valid file name (lines 310 to 346).\<close>

definition manual_review ::
  "split_args \<Rightarrow> str option \<Rightarrow> nat \<Rightarrow> str \<Rightarrow> str \<Rightarrow> str \<Rightarrow> str \<Rightarrow> loop_state \<times> world \<Rightarrow>
   (py_error + loop_state) \<times> world" where
  "manual_review A review_dir page_index text filename raw_folder foldername sw =
     (case sw of (st, w) \<Rightarrow>
        let page_no = page_index + 1;
            excerpt = take 300 (map (\<lambda>c. if c = 10 then 32 else c) text);
            w1 = log (has_callback A) (ManualReviewNeeded page_no) w;
            w2 = write_app_log (ManualReviewExcerpt page_no excerpt) w1;
            d = \<lparr>resolved = False, file_name = filename, folder_raw = raw_folder,
                 folder_name = foldername, target_directory = None\<rparr>
        in
        if safe_mode A then
          (Inr (st\<lparr>failed := failed st + 1,
                   audit_rows := audit_rows st @
                     [\<lparr>Page = page_no, Status = asc ''Failed (SAFE mode)'', Filename = [],
                       FolderRaw = raw_folder, FolderName = foldername,
                       Note = asc ''Would be sent to !manual_review''\<rparr>],
                   decisions := decisions st @ [d]\<rparr>), w2)
        else
          (case review_dir of
             None \<Rightarrow> (Inl TypeError, w2)
           | Some rd \<Rightarrow>
               let review_name = asc ''Unmatched_Page_'' @ str_of_nat page_no @ asc ''.pdf'';
                   review_path = path_join rd review_name;
                   w3 = save_pdf review_path page_index page_index w2
               in
               (Inr (st\<lparr>failed := failed st + 1,
                        audit_rows := audit_rows st @
                          [\<lparr>Page = page_no, Status = asc ''Failed'', Filename = [],
                            FolderRaw = raw_folder, FolderName = foldername,
                            Note = asc ''Sent to '' @ review_name\<rparr>],
                        decisions := decisions st @ [d]\<rparr>), w3)))"

text \<open>The rest of the loop body, for a page with a valid file name (lines 348 to 400).\<close>

definition save_page ::
  "environment \<Rightarrow> split_args \<Rightarrow> nat \<Rightarrow> str \<Rightarrow> str \<Rightarrow> str \<Rightarrow> loop_state \<times> world \<Rightarrow>
   ((py_error + loop_state) \<times> world) option" where
  "save_page E A page_index filename raw_folder foldername sw =
     (case sw of (st, w) \<Rightarrow>
        let page_no = page_index + 1;
            target_dir =
              (if save_to_folders A then
                 (if foldername \<noteq> [] then path_join (out_dir A) foldername
                  else path_join (out_dir A) (asc ''unknown''))
               else out_dir A);
            d = \<lparr>resolved = True, file_name = filename, folder_raw = raw_folder,
                 folder_name = foldername, target_directory = Some target_dir\<rparr>
        in
        if safe_mode A then
          Some (Inr (st\<lparr>audit_rows := audit_rows st @
                         [\<lparr>Page = page_no, Status = asc ''OK (SAFE mode)'', Filename = filename,
                           FolderRaw = raw_folder, FolderName = foldername,
                           Note = asc ''Would be saved''\<rparr>],
                       decisions := decisions st @ [d]\<rparr>),
                log (has_callback A) (SafeWouldSave page_no (path_join target_dir filename)) w)
        else
          (case makedirs E target_dir w of
             Inl e \<Rightarrow> Some (Inl e, w)
           | Inr w1 \<Rightarrow>
               (case splitext filename of (base, ext) \<Rightarrow>
                  (case final_name_loop (files w1) target_dir base ext filename 1 of
                     None \<Rightarrow> None
                   | Some final_name \<Rightarrow>
                       let out_path = path_join target_dir final_name;
                           w2 = save_pdf out_path page_index page_index w1;
                           w3 = log (has_callback A) (PageSaved page_no out_path) w2
                       in
                       Some (Inr (st\<lparr>success := success st + 1,
                                    audit_rows := audit_rows st @
                                      [\<lparr>Page = page_no, Status = asc ''OK'',
                                        Filename = final_name, FolderRaw = raw_folder,
                                        FolderName = foldername, Note = []\<rparr>],
                                    decisions := decisions st @ [d]\<rparr>), w3)))))"

text \<open>One iteration of \<open>for page_index in range(total_pages)\<close>.\<close>

definition page_step ::
  "environment \<Rightarrow> split_args \<Rightarrow> str option \<Rightarrow> nat \<Rightarrow> str \<Rightarrow> loop_state \<times> world \<Rightarrow>
   ((py_error + loop_state) \<times> world) option" where
  "page_step E A review_dir page_index text sw =
     (case sw of (st, w) \<Rightarrow>
        let page_no = page_index + 1;
            lines = splitlines text;
            w1 = (if safe_mode A \<and> page_no = 1 then debug_dump (has_callback A) page_no lines w
                  else w)
        in
        (case build_filename_from_line_pattern (tables E) lines (file_pattern A) of
           Inl e \<Rightarrow> Some (Inl e, w1)
         | Inr filename \<Rightarrow>
             (case build_value_from_line_pattern (tables E) lines (folder_pattern A) of
                Inl e \<Rightarrow> Some (Inl e, w1)
              | Inr raw_folder \<Rightarrow>
                  let foldername =
                        (if raw_folder \<noteq> [] then normalize_folder_name (tables E) raw_folder
                         else [])
                  in
                  if filename = [] \<or> filename = asc ''.pdf'' then
                    Some (manual_review A review_dir page_index text filename raw_folder
                            foldername (st, w1))
                  else save_page E A page_index filename raw_folder foldername (st, w1))))"

fun page_loop ::
  "environment \<Rightarrow> split_args \<Rightarrow> str option \<Rightarrow> nat \<Rightarrow> str list \<Rightarrow> loop_state \<times> world \<Rightarrow>
   ((py_error + loop_state) \<times> world) option" where
  "page_loop E A review_dir page_index [] sw = Some (Inr (fst sw), snd sw)"
| "page_loop E A review_dir page_index (text # rest) sw =
     (case page_step E A review_dir page_index text sw of
        None \<Rightarrow> None
      | Some (Inl e, w) \<Rightarrow> Some (Inl e, w)
      | Some (Inr st, w) \<Rightarrow> page_loop E A review_dir (page_index + 1) rest (st, w))"

text \<open>What follows the loop (lines 402 to 436).\<close>

definition finish_split ::
  "environment \<Rightarrow> split_args \<Rightarrow> nat \<Rightarrow> loop_state \<Rightarrow> world \<Rightarrow> (run_summary \<times> world) option" where
  "finish_split E A total_pages st w =
     (case
        (if \<not> safe_mode A then
           (case get_unique_auditlog_path (files w) (date_str E) (out_dir A) of
              None \<Rightarrow> None
            | Some audit_path \<Rightarrow>
                if to_csv_fails E then Some (None, log (has_callback A) AuditLogFailed w)
                else
                  Some (Some audit_path,
                    log (has_callback A) (AuditLogSaved audit_path)
                      (w\<lparr>files := finsert audit_path (files w),
                         trace := trace w @ [WriteCsv audit_path (audit_rows st)]\<rparr>)))
         else Some (None, log (has_callback A) SafeNoAudit w))
      of
        None \<Rightarrow> None
      | Some (audit_path, w1) \<Rightarrow>
          let w2 = log (has_callback A) (SplitFinished total_pages (success st) (failed st)) w1;
              w3 = (if \<not> safe_mode A \<and> auto_open A
                    then auto_open_folder E (has_callback A) (out_dir A) w2 else w2)
          in
          Some (\<lparr>sum_total = total_pages, sum_success = success st, sum_failed = failed st,
                  sum_audit_path = audit_path\<rparr>, w3))"

text \<open>
  Lines 283 to 288: a live run makes the output directory and the directory
  \<open>!manual_review\<close> below it, one after the other, and a simulated run has no review
  directory.
\<close>

definition make_run_dirs ::
  "environment \<Rightarrow> split_args \<Rightarrow> world \<Rightarrow> (py_error + str option) \<times> world" where
  "make_run_dirs E A w =
     (if \<not> safe_mode A then
        (case makedirs E (out_dir A) w of
           Inl e \<Rightarrow> (Inl e, w)
         | Inr w1 \<Rightarrow>
             let review_dir = path_join (out_dir A) (asc ''!manual_review'') in
             (case makedirs E review_dir w1 of
                Inl e \<Rightarrow> (Inl e, w1)
              | Inr w2 \<Rightarrow> (Inr (Some review_dir), w2)))
      else (Inr None, w))"

text \<open>
  \<open>split_pdf_full\<close>. The document is the list of the texts of its pages
  (\<open>doc.load_page(i).get_text()\<close>).
\<close>

definition split_pdf_full ::
  "environment \<Rightarrow> split_args \<Rightarrow> str list \<Rightarrow> world \<Rightarrow> ((py_error + run_summary) \<times> world) option" where
  "split_pdf_full E A doc w =
     (let w1 = log (has_callback A) (SplitStarted (inp_path A)) w;
          total_pages = length doc
      in
      if total_pages = 0 then
        Some (Inr \<lparr>sum_total = 0, sum_success = 0, sum_failed = 0, sum_audit_path = None\<rparr>,
              log (has_callback A) NoPages w1)
      else
        (case make_run_dirs E A w1 of
           (Inl e, w2) \<Rightarrow> Some (Inl e, w2)
         | (Inr review_dir, w2) \<Rightarrow>
             (case page_loop E A review_dir 0 doc
                     (\<lparr>audit_rows = [], success = 0, failed = 0, decisions = []\<rparr>, w2) of
                None \<Rightarrow> None
              | Some (Inl e, w3) \<Rightarrow> Some (Inl e, w3)
              | Some (Inr st, w3) \<Rightarrow>
                  (case finish_split E A total_pages st w3 of
                     None \<Rightarrow> None
                   | Some (r, w4) \<Rightarrow> Some (Inr r, w4)))))"


section \<open>PDF Tools core functions\<close>






section \<open>A sample environment\<close>

text \<open>
  Tables that agree with the Unicode database of CPython on the code points below U+0100
  and on U+0130, U+0192 and U+0307: there is no decimal digit beyond ASCII in that range,
  and lower-casing there acts letter by letter. They serve to run the functions on
  concrete strings made of these code points. The limit on \<open>int\<close> is the default one, and
  in the sample environment \<open>os.makedirs\<close> fails on the empty path only.
\<close>

definition sample_ucd :: ucd where
  "sample_ucd =
     \<lparr>u_decimal = (\<lambda>c. None),
      u_alnum = (\<lambda>c. c \<in> {170, 178, 179, 181, 185, 186, 188, 189, 190, 304, 402} \<or>
                     (192 \<le> c \<and> c \<le> 255 \<and> c \<noteq> 215 \<and> c \<noteq> 247)),
      u_lower = (\<lambda>s. concat (map (\<lambda>c. if 192 \<le> c \<and> c \<le> 222 \<and> c \<noteq> 215 then [c + 32]
                                        else if c = 304 then [105, 775]
                                        else [ascii_lower c]) s)),
      int_max_str_digits = 4300\<rparr>"

definition sample_env :: environment where
  "sample_env =
     \<lparr>tables = sample_ucd, date_str = asc ''2024-05-31'', to_csv_fails = False,
      popen_fails = False, makedirs_error = (\<lambda>fs path. None)\<rparr>"


section \<open>Notions used to state the properties\<close>

text \<open>
  Two ways to sort the effects: the log lines, and everything that writes to the file
  system. Appending a line to the application log is both.
\<close>

fun is_log_effect :: "effect \<Rightarrow> bool" where
  "is_log_effect (AppLog m) = True"
| "is_log_effect (Callback m) = True"
| "is_log_effect (MakeDirs p) = False"
| "is_log_effect (SavePdf p a b) = False"
| "is_log_effect (WriteCsv p rows) = False"
| "is_log_effect (Popen p) = False"

fun touches_filesystem :: "effect \<Rightarrow> bool" where
  "touches_filesystem (AppLog m) = True"
| "touches_filesystem (Callback m) = False"
| "touches_filesystem (MakeDirs p) = True"
| "touches_filesystem (SavePdf p a b) = True"
| "touches_filesystem (WriteCsv p rows) = True"
| "touches_filesystem (Popen p) = False"

text \<open>
  The page classifier as the specification describes it (section 4.4): resolve the file
  pattern against the lines of the page and sanitize the result as a file name; resolve
  the folder pattern and normalize it if it is not empty; the page is unresolvable if the
  file name is empty or exactly \<open>.pdf\<close>; otherwise the target directory is the output root,
  or, with folder routing, the folder of that name (\<open>unknown\<close> without one) below it.
\<close>

definition spec_classify :: "environment \<Rightarrow> split_args \<Rightarrow> str \<Rightarrow> naming_decision" where
  "spec_classify E A text =
     (let lines = splitlines text;
          fileName = (case build_filename_from_line_pattern (tables E) lines (file_pattern A) of
                        Inl e \<Rightarrow> [] | Inr f \<Rightarrow> f);
          folderRaw = (case build_value_from_line_pattern (tables E) lines (folder_pattern A) of
                         Inl e \<Rightarrow> [] | Inr r \<Rightarrow> r);
          folderName = (if folderRaw \<noteq> [] then normalize_folder_name (tables E) folderRaw else [])
      in
      if fileName = [] \<or> fileName = asc ''.pdf'' then
        \<lparr>resolved = False, file_name = fileName, folder_raw = folderRaw,
         folder_name = folderName, target_directory = None\<rparr>
      else
        \<lparr>resolved = True, file_name = fileName, folder_raw = folderRaw,
         folder_name = folderName,
         target_directory =
           Some (if save_to_folders A then
                   (if folderName \<noteq> [] then path_join (out_dir A) folderName
                    else path_join (out_dir A) (asc ''unknown''))
                 else out_dir A)\<rparr>)"



text \<open>
  Three conditions on a run of the engine. Neither pattern is longer than the limit on
  \<open>int\<close>, so that no number in it is. Both patterns resolve on a page without an error.
  The environment lets \<open>os.makedirs\<close> succeed on every path but the empty one.
\<close>

definition patterns_within_int_limit :: "environment \<Rightarrow> split_args \<Rightarrow> bool" where
  "patterns_within_int_limit E A \<longleftrightarrow>
     within_int_limit (tables E) (file_pattern A) \<and>
     within_int_limit (tables E) (folder_pattern A)"

definition names_resolve :: "environment \<Rightarrow> split_args \<Rightarrow> str \<Rightarrow> bool" where
  "names_resolve E A text \<longleftrightarrow>
     (case build_filename_from_line_pattern (tables E) (splitlines text) (file_pattern A) of
        Inl e \<Rightarrow> False
      | Inr filename \<Rightarrow>
          (case build_value_from_line_pattern (tables E) (splitlines text) (folder_pattern A) of
             Inl e \<Rightarrow> False
           | Inr raw_folder \<Rightarrow> True))"

definition makedirs_never_fails :: "environment \<Rightarrow> bool" where
  "makedirs_never_fails E \<longleftrightarrow> (\<forall>fs path. makedirs_error E fs path = None)"

text \<open>
  What one page, and what a run of pages starting at index \<open>i\<close>, adds to the variables of
  the loop, in terms of the classifier above: the decision, the failed count and the audit
  row, of which the page number, the two folder columns and whether the status is the one
  for a page with a valid name are told. The success count is left out, for the two modes
  differ on it.
\<close>

definition page_recorded ::
  "environment \<Rightarrow> split_args \<Rightarrow> str \<Rightarrow> nat \<Rightarrow> str \<Rightarrow> loop_state \<Rightarrow> loop_state \<Rightarrow> bool" where
  "page_recorded E A ok_status i text st st' \<longleftrightarrow>
     decisions st' = decisions st @ [spec_classify E A text] \<and>
     failed st' = failed st + (if resolved (spec_classify E A text) then 0 else 1) \<and>
     (\<exists>row. audit_rows st' = audit_rows st @ [row] \<and> Page row = i + 1 \<and>
        FolderRaw row = folder_raw (spec_classify E A text) \<and>
        FolderName row = folder_name (spec_classify E A text) \<and>
        (Status row = ok_status) = resolved (spec_classify E A text))"

definition pages_recorded ::
  "environment \<Rightarrow> split_args \<Rightarrow> str \<Rightarrow> nat \<Rightarrow> str list \<Rightarrow> loop_state \<Rightarrow> loop_state \<Rightarrow> bool" where
  "pages_recorded E A ok_status i doc st st' \<longleftrightarrow>
     decisions st' = decisions st @ map (spec_classify E A) doc \<and>
     failed st' = failed st + length (filter (\<lambda>t. \<not> resolved (spec_classify E A t)) doc) \<and>
     (\<exists>rows. audit_rows st' = audit_rows st @ rows \<and>
        map Page rows = [i + 1..<i + 1 + length doc] \<and>
        map FolderRaw rows = map (\<lambda>t. folder_raw (spec_classify E A t)) doc \<and>
        map FolderName rows = map (\<lambda>t. folder_name (spec_classify E A t)) doc \<and>
        map (\<lambda>r. Status r = ok_status) rows = map (\<lambda>t. resolved (spec_classify E A t)) doc)"

text \<open>Arguments and a starting world for running the engine on concrete documents.\<close>

definition sample_args :: split_args where
  "sample_args =
     \<lparr>inp_path = asc ''in.pdf'', out_dir = asc ''out'', file_pattern = asc ''[LINE 0]'',
      folder_pattern = asc ''[LINE 1]'', save_to_folders = False, safe_mode = True,
      auto_open = False, has_callback = False\<rparr>"

definition empty_world :: world where
  "empty_world = \<lparr>files = {||}, trace = []\<rparr>"

section \<open>Lemmas on digits and tokens\<close>

lemma str_of_nat_small: "n < 10 \<Longrightarrow> str_of_nat n = [48 + n]"
  by (subst str_of_nat.simps) simp

lemma str_of_nat_large:
  "\<not> n < 10 \<Longrightarrow> str_of_nat n = str_of_nat (n div 10) @ [48 + n mod 10]"
  by (subst str_of_nat.simps) simp

lemma str_of_nat_nonempty: "str_of_nat n \<noteq> []"
  by (cases "n < 10") (simp_all add: str_of_nat_small str_of_nat_large)

lemma str_of_nat_digits: "c \<in> set (str_of_nat n) \<Longrightarrow> 48 \<le> c \<and> c \<le> 57"
proof (induction n rule: str_of_nat.induct)
  case (1 n)
  show ?case
  proof (cases "n < 10")
    case True
    with "1.prems" show ?thesis by (simp add: str_of_nat_small)
  next
    case False
    with "1.prems" have "c \<in> set (str_of_nat (n div 10)) \<or> c = 48 + n mod 10"
      by (auto simp: str_of_nat_large)
    with "1.IH" False show ?thesis by auto
  qed
qed

lemma digits_value_snoc:
  "digits_value U (ds @ [c]) = 10 * digits_value U ds + digit_value U c"
  by (simp add: digits_value_def)

lemma digits_value_str_of_nat: "digits_value U (str_of_nat n) = n"
proof (induction n rule: str_of_nat.induct)
  case (1 n)
  show ?case
  proof (cases "n < 10")
    case True
    then show ?thesis
      by (simp add: str_of_nat_small digits_value_def digit_value_def)
  next
    case False
    with 1 have "digits_value U (str_of_nat (n div 10)) = n div 10" by simp
    moreover have "digit_value U (48 + n mod 10) = n mod 10"
    proof -
      have "n mod 10 < 10" by simp
      then have "48 + n mod 10 < 128" by linarith
      then show ?thesis unfolding digit_value_def by simp
    qed
    ultimately show ?thesis using False
      by (simp add: str_of_nat_large digits_value_snoc)
  qed
qed

lemma str_of_nat_inj: "str_of_nat m = str_of_nat n \<Longrightarrow> m = n"
  by (metis digits_value_str_of_nat)

lemma int_of_digits_within:
  "within_int_limit U ds \<Longrightarrow> int_of_digits U ds = Inr (digits_value U ds)"
  by (simp add: int_of_digits_def)

lemma int_of_digits_beyond:
  "\<not> within_int_limit U ds \<Longrightarrow> int_of_digits U ds = Inl ValueError"
  by (simp add: int_of_digits_def)

lemma int_of_digits_str_of_nat:
  "within_int_limit U (str_of_nat n) \<Longrightarrow> int_of_digits U (str_of_nat n) = Inr n"
  by (simp add: int_of_digits_def digits_value_str_of_nat)

lemma within_int_limit_mono:
  "within_int_limit U s \<Longrightarrow> length t \<le> length s \<Longrightarrow> within_int_limit U t"
  by (auto simp: within_int_limit_def)

lemma is_decimal_ascii: "48 \<le> c \<and> c \<le> 57 \<Longrightarrow> is_decimal U c"
  by (simp add: is_decimal_def)

lemma is_decimal_str_of_nat: "c \<in> set (str_of_nat n) \<Longrightarrow> is_decimal U c"
  by (drule str_of_nat_digits) (simp add: is_decimal_def)

lemma takeWhile_digits:
  "\<not> is_decimal U c \<Longrightarrow> takeWhile (is_decimal U) (str_of_nat n @ c # r) = str_of_nat n"
  by (simp add: takeWhile_append2 is_decimal_str_of_nat)

lemma dropWhile_digits:
  "\<not> is_decimal U c \<Longrightarrow> dropWhile (is_decimal U) (str_of_nat n @ c # r) = c # r"
  by (simp add: dropWhile_append2 is_decimal_str_of_nat)

lemma not_space_digit: "c \<in> set (str_of_nat n) \<Longrightarrow> \<not> is_space c"
  by (drule str_of_nat_digits) (simp add: is_space_def)

lemma blanks_before_digits:
  "is_space 32"
  "takeWhile is_space (str_of_nat n @ r) = []"
  "dropWhile is_space (str_of_nat n @ r) = str_of_nat n @ r"
proof -
  show "is_space 32" by (simp add: is_space_def)
  obtain d ds where d: "str_of_nat n = d # ds"
    using str_of_nat_nonempty [of n] by (cases "str_of_nat n") auto
  then have "\<not> is_space d" using not_space_digit [of d n] by simp
  with d show "takeWhile is_space (str_of_nat n @ r) = []"
    and "dropWhile is_space (str_of_nat n @ r) = str_of_nat n @ r" by simp_all
qed

lemma not_decimal_punct:
  "\<not> is_decimal U 40" "\<not> is_decimal U 41" "\<not> is_decimal U 47" "\<not> is_decimal U 93"
  by (simp_all add: is_decimal_def)

lemma match_range_token:
  "match_range U (40 # str_of_nat s @ 41 # r) = Some (str_of_nat s, None, r)"
  "match_range U (40 # str_of_nat s @ 47 # str_of_nat e @ 41 # r) =
     Some (str_of_nat s, Some (str_of_nat e), r)"
  by (simp_all add: match_range_def takeWhile_digits dropWhile_digits not_decimal_punct
      str_of_nat_nonempty)

lemma match_range_bracket: "match_range U (93 # r) = None"
  by (simp add: match_range_def)

lemma match_line_token_rendered:
  "match_line_token U (line_token n r @ post) =
     Some ((str_of_nat n,
            (case r of None \<Rightarrow> None | Some (s, _) \<Rightarrow> Some (str_of_nat s)),
            (case r of Some (_, Some e) \<Rightarrow> Some (str_of_nat e) | _ \<Rightarrow> None)), post)"
proof -
  have p: "asc ''[LINE '' = [91, 76, 73, 78, 69, 32]" "asc ''[LINE'' = [91, 76, 73, 78, 69]"
    "asc ''('' = [40]" "asc '')'' = [41]" "asc ''/'' = [47]" "asc '']'' = [93]"
    by (simp_all add: asc_def)
  show ?thesis
  proof (cases r)
    case None
    then show ?thesis
      by (simp add: line_token_def p match_line_token_def blanks_before_digits
          takeWhile_digits dropWhile_digits not_decimal_punct str_of_nat_nonempty
          match_range_bracket)
  next
    case (Some q)
    obtain s eo where q: "q = (s, eo)" by (cases q)
    show ?thesis
    proof (cases eo)
      case None
      with Some q show ?thesis
        using match_range_token(1) [of U s "93 # post"]
        by (simp add: line_token_def p match_line_token_def blanks_before_digits
            takeWhile_digits dropWhile_digits not_decimal_punct str_of_nat_nonempty)
    next
      case (Some e)
      with \<open>r = Some q\<close> q show ?thesis
        using match_range_token(2) [of U s e "93 # post"]
        by (simp add: line_token_def p match_line_token_def blanks_before_digits
            takeWhile_digits dropWhile_digits not_decimal_punct str_of_nat_nonempty)
    qed
  qed
qed

text \<open>A token without a character range whose line number is any run of ASCII digits.\<close>

lemma match_line_token_plain:
  assumes "ds \<noteq> []" and "\<forall>c \<in> set ds. 48 \<le> c \<and> c \<le> 57"
  shows "match_line_token U (asc ''[LINE '' @ ds @ asc '']'' @ post) = Some ((ds, None, None), post)"
proof -
  have p: "asc ''[LINE '' = [91, 76, 73, 78, 69, 32]" "asc ''[LINE'' = [91, 76, 73, 78, 69]"
    "asc '']'' = [93]"
    by (simp_all add: asc_def)
  have dec: "\<forall>c \<in> set ds. is_decimal U c"
    using assms(2) by (auto intro: is_decimal_ascii)
  obtain d ds' where d: "ds = d # ds'" using assms(1) by (cases ds) auto
  with assms(2) have nsp: "\<not> is_space d" by (simp add: is_space_def)
  have t: "takeWhile (is_decimal U) (ds @ 93 # post) = ds"
    using dec by (simp add: takeWhile_append2 not_decimal_punct)
  have dr: "dropWhile (is_decimal U) (ds @ 93 # post) = 93 # post"
    using dec by (simp add: dropWhile_append2 not_decimal_punct)
  have sp: "takeWhile is_space (ds @ 93 # post) = []" "dropWhile is_space (ds @ 93 # post) = ds @ 93 # post"
    using d nsp by simp_all
  show ?thesis
    using assms(1)
    by (simp add: p match_line_token_def blanks_before_digits(1) sp t dr match_range_bracket)
qed

text \<open>The groups of a match are pieces of the string matched.\<close>

lemma match_range_groups:
  assumes "match_range U s = Some (g2, g3, r)"
  shows "length g2 \<le> length s \<and> (\<forall>x. g3 = Some x \<longrightarrow> length x \<le> length s)"
proof -
  from assms obtain t where s: "s = 40 # t"
    by (auto simp: match_range_def split: list.splits if_splits)
  have g2: "g2 = takeWhile (is_decimal U) t"
    using assms s by (auto simp: match_range_def Let_def split: list.splits if_splits)
  have a: "length g2 \<le> length s"
    using length_takeWhile_le [of "is_decimal U" t] by (simp add: g2 s)
  have b: "length x \<le> length s" if "g3 = Some x" for x
  proof -
    from assms s that obtain t3 where t3: "dropWhile (is_decimal U) t = 47 # t3"
      and x: "x = takeWhile (is_decimal U) t3"
      by (auto simp: match_range_def Let_def split: list.splits if_splits)
    have "length x \<le> length t3" using length_takeWhile_le [of "is_decimal U" t3] by (simp add: x)
    also have "length t3 \<le> length (dropWhile (is_decimal U) t)" by (simp add: t3)
    also have "\<dots> \<le> length t" by (rule length_dropWhile_le)
    finally show ?thesis by (simp add: s)
  qed
  from a b show ?thesis by blast
qed

lemma match_line_token_groups:
  assumes "match_line_token U s = Some ((g1, g2, g3), rest)"
  shows "length g1 \<le> length s \<and> (\<forall>x. g2 = Some x \<longrightarrow> length x \<le> length s) \<and>
    (\<forall>x. g3 = Some x \<longrightarrow> length x \<le> length s)"
proof -
  from assms obtain s1 where s1: "strip_prefix (asc ''[LINE'') s = Some s1"
    by (auto simp: match_line_token_def split: option.splits)
  define s2 where "s2 = dropWhile is_space s1"
  define s3 where "s3 = dropWhile (is_decimal U) s2"
  have l2: "length s2 \<le> length s"
    using length_dropWhile_le [of is_space s1] strip_prefix_length [OF s1] by (simp add: s2_def)
  have l3: "length s3 \<le> length s"
    using length_dropWhile_le [of "is_decimal U" s2] l2 by (simp add: s3_def)
  have g1: "g1 = takeWhile (is_decimal U) s2"
    using assms s1
    by (auto simp: match_line_token_def Let_def s2_def split: option.splits list.splits if_splits)
  have a: "length g1 \<le> length s"
    using length_takeWhile_le [of "is_decimal U" s2] l2 by (simp add: g1)
  have b: "(\<forall>x. g2 = Some x \<longrightarrow> length x \<le> length s) \<and> (\<forall>x. g3 = Some x \<longrightarrow> length x \<le> length s)"
  proof (cases "match_range U s3")
    case None
    with assms s1 have "g2 = None \<and> g3 = None"
      by (auto simp: match_line_token_def Let_def s2_def s3_def
          split: option.splits list.splits if_splits)
    then show ?thesis by simp
  next
    case (Some q)
    obtain h2 h3 r where q: "q = (h2, h3, r)" by (cases q)
    with Some assms s1 have "g2 = Some h2 \<and> g3 = h3"
      by (auto simp: match_line_token_def Let_def s2_def s3_def
          split: option.splits list.splits if_splits)
    with match_range_groups [of U s3 h2 h3 r] Some q l3 show ?thesis by auto
  qed
  from a b show ?thesis by blast
qed

text \<open>
  The only error of \<open>replace_token\<close> is the \<open>ValueError\<close> of \<open>int\<close>: the list is indexed
  inside its range.
\<close>

lemma replace_token_errors: "replace_token U lines m = Inl e \<Longrightarrow> e = ValueError"
  by (cases m)
    (auto simp: replace_token_def int_of_digits_def py_index_def Let_def
      split: sum.splits option.splits if_splits)

lemma replace_token_fits:
  assumes "within_int_limit U g1"
    and "\<And>x. g2 = Some x \<Longrightarrow> within_int_limit U x"
    and "\<And>x. g3 = Some x \<Longrightarrow> within_int_limit U x"
  shows "\<exists>v. replace_token U lines (g1, g2, g3) = Inr v"
  using assms
  by (auto simp: replace_token_def int_of_digits_def py_index_def Let_def
      split: sum.splits option.splits if_splits)

lemma replace_token_beyond:
  "\<not> within_int_limit U g1 \<Longrightarrow> replace_token U lines (g1, g2, g3) = Inl ValueError"
  by (simp add: replace_token_def int_of_digits_def)

lemma sub_tokens_fits:
  "within_int_limit U s \<Longrightarrow> \<exists>v. sub_tokens U lines s = Inr v"
proof (induction U lines s rule: sub_tokens.induct)
  case (1 U lines)
  show ?case by simp
next
  case (2 U lines c cs)
  show ?case
  proof (cases "match_line_token U (c # cs)")
    case None
    have "within_int_limit U cs"
      using "2.prems" by (rule within_int_limit_mono) simp
    with 2(1) [OF None] None show ?thesis by auto
  next
    case (Some a)
    obtain g1 g2 g3 rest where a: "a = ((g1, g2, g3), rest)" by (cases a) auto
    from Some a have m: "match_line_token U (c # cs) = Some ((g1, g2, g3), rest)" by simp
    note g = match_line_token_groups [OF m]
    note mono = within_int_limit_mono [OF "2.prems"]
    have "\<exists>v. replace_token U lines (g1, g2, g3) = Inr v"
    proof (rule replace_token_fits)
      show "within_int_limit U g1" using g by (intro mono) simp
      show "within_int_limit U x" if "g2 = Some x" for x using g that by (intro mono) simp
      show "within_int_limit U x" if "g3 = Some x" for x using g that by (intro mono) simp
    qed
    then obtain v where v: "replace_token U lines (g1, g2, g3) = Inr v" ..
    have "within_int_limit U rest"
      using match_line_token_length [OF m] by (intro mono) simp
    from 2(2) [OF Some a [symmetric] v this] obtain r where
      "sub_tokens U lines rest = Inr r" by auto
    with m v show ?thesis by simp
  qed
qed

lemma sub_tokens_errors: "sub_tokens U lines s = Inl e \<Longrightarrow> e = ValueError"
proof (induction U lines s rule: sub_tokens.induct)
  case (1 U lines)
  then show ?case by simp
next
  case (2 U lines c cs)
  show ?case
  proof (cases "match_line_token U (c # cs)")
    case None
    with "2.prems" have "sub_tokens U lines cs = Inl e"
      by (simp split: sum.splits)
    with 2(1) [OF None] show ?thesis by simp
  next
    case (Some a)
    obtain m rest where a: "a = (m, rest)" by (cases a)
    show ?thesis
    proof (cases "replace_token U lines m")
      case (Inl e')
      with Some a "2.prems" have "e' = e" by simp
      with Inl show ?thesis by (auto dest: replace_token_errors)
    next
      case (Inr v)
      with Some a "2.prems" have "sub_tokens U lines rest = Inl e"
        by (simp split: sum.splits)
      with 2(2) [OF Some a [symmetric] Inr] show ?thesis by simp
    qed
  qed
qed

lemma sub_tokens_no_bracket: "91 \<notin> set s \<Longrightarrow> sub_tokens U lines s = Inr s"
proof (induction s)
  case Nil
  show ?case by simp
next
  case (Cons c cs)
  then have "match_line_token U (c # cs) = None"
    by (simp add: match_line_token_def asc_def)
  with Cons show ?case by simp
qed

lemma match_line_token_Nil: "match_line_token U [] = None"
  by (simp add: match_line_token_def asc_def)

lemma sub_tokens_token:
  assumes "match_line_token U s = Some (m, rest)" and "replace_token U lines m = Inr v"
    and "sub_tokens U lines rest = Inr r"
  shows "sub_tokens U lines s = Inr (v @ r)"
proof (cases s)
  case Nil
  with assms(1) show ?thesis by (simp add: match_line_token_Nil)
next
  case (Cons c cs)
  with assms show ?thesis by simp
qed

lemma sub_tokens_token_rest:
  assumes "match_line_token U s = Some (m, rest)" and "replace_token U lines m = Inr []"
  shows "sub_tokens U lines s = sub_tokens U lines rest"
proof (cases s)
  case Nil
  with assms(1) show ?thesis by (simp add: match_line_token_Nil)
next
  case (Cons c cs)
  with assms show ?thesis by (simp split: sum.splits)
qed

lemma sub_tokens_token_error:
  assumes "match_line_token U s = Some (m, rest)" and "replace_token U lines m = Inl e"
  shows "sub_tokens U lines s = Inl e"
proof (cases s)
  case Nil
  with assms(1) show ?thesis by (simp add: match_line_token_Nil)
next
  case (Cons c cs)
  with assms show ?thesis by simp
qed

lemma replace_token_out_of_range:
  "within_int_limit U g1 \<Longrightarrow> length lines \<le> digits_value U g1 \<Longrightarrow>
   replace_token U lines (g1, g2, g3) = Inr []"
  by (simp add: replace_token_def int_of_digits_def)

lemma replace_token_in_range:
  "n < length lines \<Longrightarrow> within_int_limit U (str_of_nat n) \<Longrightarrow>
   replace_token U lines (str_of_nat n, None, None) = Inr (strip (lines ! n))"
  "n < length lines \<Longrightarrow> within_int_limit U (str_of_nat n) \<Longrightarrow>
   within_int_limit U (str_of_nat s) \<Longrightarrow> within_int_limit U (str_of_nat e) \<Longrightarrow>
   replace_token U lines (str_of_nat n, Some (str_of_nat s), Some (str_of_nat e)) =
     Inr (strip (take (e - nat (max (int s - 1) 0)) (drop (nat (max (int s - 1) 0)) (lines ! n))))"
  by (simp_all add: replace_token_def int_of_digits_str_of_nat py_index_def str_of_nat_nonempty
      Let_def)

lemma replace_token_range_beyond:
  "n < length lines \<Longrightarrow> within_int_limit U (str_of_nat n) \<Longrightarrow>
   \<not> (within_int_limit U (str_of_nat s) \<and> within_int_limit U (str_of_nat e)) \<Longrightarrow>
   replace_token U lines (str_of_nat n, Some (str_of_nat s), Some (str_of_nat e)) = Inl ValueError"
  by (auto simp: replace_token_def int_of_digits_def digits_value_str_of_nat py_index_def
      str_of_nat_nonempty Let_def)

lemmas pattern_eval = build_value_from_line_pattern_def match_line_token_def match_range_def
  replace_token_def asc_def is_space_def is_decimal_def digit_value_def digits_value_def
  int_of_digits_def within_int_limit_def strip_def py_index_def Let_def sample_ucd_def

lemma line_token_035: "line_token 0 (Some (3, Some 5)) = asc ''[LINE 0(3/5)]''"
  by (simp add: line_token_def str_of_nat_small asc_def)

lemma strip_prefix_other:
  "length k = length p \<Longrightarrow> k \<noteq> p \<Longrightarrow> strip_prefix p (k @ r) = None"
proof (induction p arbitrary: k)
  case Nil
  then show ?case by simp
next
  case (Cons a p)
  then obtain b k' where k: "k = b # k'" by (cases k) auto
  with Cons show ?case by auto
qed

lemma other_keyword_no_match:
  assumes "length k = 4" and "k \<noteq> asc ''LINE''"
  shows "match_line_token U (91 # k @ r) = None"
proof -
  have "strip_prefix (asc ''LINE'') (k @ r) = None"
    using assms by (intro strip_prefix_other) (simp_all add: asc_def)
  then show ?thesis by (simp add: match_line_token_def asc_def)
qed

section \<open>The pattern resolver: claims C2, C6 and C7\<close>

text \<open>
  C2, as the code has it. For every line array, every index \<open>n\<close> inside it and every token
  \<open>[LINE n(s/e)]\<close>: when none of the three numbers has more digits than \<open>int\<close> converts,
  the resolver takes from line \<open>n\<close> the slice that starts at \<open>start = max(s - 1, 0)\<close> and
  stops before the zero-based index \<open>e\<close>, an \<open>e\<close> beyond the end of the line cutting at the
  end, and strips it; counted from one, these are the characters at positions \<open>s\<close> to \<open>e\<close>,
  both included. When one of the numbers has more digits than that, the resolver raises
  \<open>ValueError\<close>.
\<close>

theorem line_token_range_slice:
  assumes "n < length lines"
  shows "(within_int_limit U (str_of_nat n) \<and> within_int_limit U (str_of_nat s) \<and>
      within_int_limit U (str_of_nat e) \<longrightarrow>
      build_value_from_line_pattern U lines (line_token n (Some (s, Some e))) =
        Inr (strip (take (e - nat (max (int s - 1) 0)) (drop (nat (max (int s - 1) 0)) (lines ! n)))) \<and>
      (length (lines ! n) \<le> e \<longrightarrow>
        build_value_from_line_pattern U lines (line_token n (Some (s, Some e))) =
          Inr (strip (drop (nat (max (int s - 1) 0)) (lines ! n))))) \<and>
    (\<not> (within_int_limit U (str_of_nat n) \<and> within_int_limit U (str_of_nat s) \<and>
        within_int_limit U (str_of_nat e)) \<longrightarrow>
      build_value_from_line_pattern U lines (line_token n (Some (s, Some e))) = Inl ValueError)"
proof -
  let ?m = "(str_of_nat n, Some (str_of_nat s), Some (str_of_nat e))"
  have m: "match_line_token U (line_token n (Some (s, Some e))) = Some (?m, [])"
    using match_line_token_rendered [of U n "Some (s, Some e)" "[]"] by simp
  have fits: "build_value_from_line_pattern U lines (line_token n (Some (s, Some e))) =
      Inr (strip (take (e - nat (max (int s - 1) 0)) (drop (nat (max (int s - 1) 0)) (lines ! n))))"
    if "within_int_limit U (str_of_nat n)" "within_int_limit U (str_of_nat s)"
      "within_int_limit U (str_of_nat e)"
  proof -
    have "sub_tokens U lines (line_token n (Some (s, Some e))) =
        Inr (strip (take (e - nat (max (int s - 1) 0)) (drop (nat (max (int s - 1) 0)) (lines ! n))) @ [])"
      using m replace_token_in_range(2) [OF assms that]
      by (rule sub_tokens_token) simp
    then show ?thesis by (simp add: build_value_from_line_pattern_def)
  qed
  have beyond: "build_value_from_line_pattern U lines (line_token n (Some (s, Some e))) = Inl ValueError"
    if "\<not> (within_int_limit U (str_of_nat n) \<and> within_int_limit U (str_of_nat s) \<and>
        within_int_limit U (str_of_nat e))"
  proof -
    have "replace_token U lines ?m = Inl ValueError"
    proof (cases "within_int_limit U (str_of_nat n)")
      case True
      with that show ?thesis by (intro replace_token_range_beyond [OF assms]) simp_all
    next
      case False
      then show ?thesis by (rule replace_token_beyond)
    qed
    with m have "sub_tokens U lines (line_token n (Some (s, Some e))) = Inl ValueError"
      by (rule sub_tokens_token_error)
    then show ?thesis by (simp add: build_value_from_line_pattern_def)
  qed
  from fits beyond show ?thesis by simp
qed

text \<open>
  Against the single line \<open>Hello World\<close> the token \<open>[LINE 0(3/5)]\<close> gives \<open>llo\<close>, and an end
  position of 20 reaches to the end of the line.
\<close>

theorem line_token_range_slice_witness:
  "0 < length [asc ''Hello World''] \<and>
   within_int_limit sample_ucd (str_of_nat 0) \<and> within_int_limit sample_ucd (str_of_nat 3) \<and>
   within_int_limit sample_ucd (str_of_nat 5) \<and> within_int_limit sample_ucd (str_of_nat 20) \<and>
   build_value_from_line_pattern sample_ucd [asc ''Hello World''] (asc ''[LINE 0(3/5)]'') = Inr (asc ''llo'') \<and>
   length ([asc ''Hello World''] ! 0) \<le> 20 \<and>
   build_value_from_line_pattern sample_ucd [asc ''Hello World''] (line_token 0 (Some (3, Some 20))) =
     Inr (asc ''llo World'')"
proof -
  have w: "within_int_limit sample_ucd (str_of_nat 0)" "within_int_limit sample_ucd (str_of_nat 3)"
    "within_int_limit sample_ucd (str_of_nat 5)" "within_int_limit sample_ucd (str_of_nat 20)"
    by (simp_all add: within_int_limit_def sample_ucd_def str_of_nat_small str_of_nat_large)
  from line_token_range_slice [of 0 "[asc ''Hello World'']" sample_ucd 3 5]
    line_token_range_slice [of 0 "[asc ''Hello World'']" sample_ucd 3 20] w
  show ?thesis
    by (simp add: line_token_035 strip_def is_space_def asc_def)
qed

text \<open>C2 as stated expects \<open>ll\<close> for that token; the resolver does not return it.\<close>

theorem hello_world_slice_counterexample:
  "build_value_from_line_pattern sample_ucd [asc ''Hello World''] (asc ''[LINE 0(3/5)]'') \<noteq> Inr (asc ''ll'')"
  by (simp add: pattern_eval)

text \<open>
  C6, as the code has it. The expression is compiled without \<open>re.IGNORECASE\<close>: a bracketed
  directive whose four-letter keyword is anything but upper-case \<open>LINE\<close> is copied verbatim,
  whatever the lines are. \<open>[LINE n]\<close> is taken as a token whatever the lines are: when \<open>n\<close>
  has no more digits than \<open>int\<close> converts it is replaced by the stripped line \<open>n\<close>, or by
  nothing when there is no such line, and otherwise the resolver raises \<open>ValueError\<close>.
\<close>

theorem token_keyword_case_sensitive:
  assumes "length k = 4" and "k \<noteq> asc ''LINE''" and "91 \<notin> set k"
  shows "build_value_from_line_pattern U lines (asc ''['' @ k @ asc '' '' @ str_of_nat n @ asc '']'') =
      Inr (asc ''['' @ k @ asc '' '' @ str_of_nat n @ asc '']'') \<and>
    build_value_from_line_pattern U lines (asc ''[LINE '' @ str_of_nat n @ asc '']'') =
      (if within_int_limit U (str_of_nat n)
       then Inr (if n < length lines then strip (lines ! n) else [])
       else Inl ValueError)"
proof -
  let ?t = "k @ asc '' '' @ str_of_nat n @ asc '']''"
  have nb: "91 \<notin> set ?t"
    using assms(3) str_of_nat_digits [of 91 n] by (auto simp: asc_def)
  have "match_line_token U (91 # ?t) = None"
    using assms(1,2) by (rule other_keyword_no_match)
  with sub_tokens_no_bracket [OF nb, of U lines]
  have a: "sub_tokens U lines (91 # ?t) = Inr (91 # ?t)" by simp
  have m: "match_line_token U (line_token n None) = Some ((str_of_nat n, None, None), [])"
    using match_line_token_rendered [of U n None "[]"] by simp
  have "sub_tokens U lines (line_token n None) =
      (if within_int_limit U (str_of_nat n)
       then Inr (if n < length lines then strip (lines ! n) else [])
       else Inl ValueError)"
  proof (cases "within_int_limit U (str_of_nat n)")
    case w: True
    have "sub_tokens U lines (line_token n None) =
        Inr ((if n < length lines then strip (lines ! n) else []) @ [])"
    proof (cases "n < length lines")
      case True
      with m replace_token_in_range(1) [OF True w] show ?thesis
        by (intro sub_tokens_token [where rest = "[]"]) simp_all
    next
      case False
      then have "replace_token U lines (str_of_nat n, None, None) = Inr []"
        using w by (intro replace_token_out_of_range) (simp_all add: digits_value_str_of_nat)
      with m False show ?thesis
        by (intro sub_tokens_token [where rest = "[]"]) simp_all
    qed
    with w show ?thesis by simp
  next
    case False
    then have "replace_token U lines (str_of_nat n, None, None) = Inl ValueError"
      by (rule replace_token_beyond)
    with m have "sub_tokens U lines (line_token n None) = Inl ValueError"
      by (rule sub_tokens_token_error)
    with False show ?thesis by simp
  qed
  with a show ?thesis
    by (simp add: build_value_from_line_pattern_def line_token_def asc_def)
qed

text \<open>The keyword in lower case, against two lines.\<close>

theorem token_keyword_case_sensitive_witness:
  "length (asc ''line'') = 4 \<and> asc ''line'' \<noteq> asc ''LINE'' \<and> 91 \<notin> set (asc ''line'') \<and>
   build_value_from_line_pattern sample_ucd [asc ''Ana'', asc '' Kovac ''] (asc ''[line 1]'') =
     Inr (asc ''[line 1]'') \<and>
   build_value_from_line_pattern sample_ucd [asc ''Ana'', asc '' Kovac ''] (asc ''[LINE 1]'') =
     Inr (asc ''Kovac'')"
  using token_keyword_case_sensitive [of "asc ''line''" sample_ucd "[asc ''Ana'', asc '' Kovac '']" 1]
  by (simp add: asc_def str_of_nat_small strip_def is_space_def within_int_limit_def sample_ucd_def)

text \<open>C6 as stated wants \<open>[line 1]\<close> and \<open>[LINE 1]\<close> substituted alike; they are not.\<close>

theorem lowercase_token_counterexample:
  "build_value_from_line_pattern sample_ucd [asc ''Ana'', asc '' Kovac ''] (asc ''[line 1]'') \<noteq>
   build_value_from_line_pattern sample_ucd [asc ''Ana'', asc '' Kovac ''] (asc ''[LINE 1]'')"
  by (simp add: pattern_eval)

text \<open>
  C7, as the code has it. \<open>replace_token\<close> converts the line number with \<open>int\<close> before it
  compares it with the number of lines. Whatever the expression accepts as a token, with
  or without a character range, is replaced by the empty string when its line number has
  no more digits than \<open>int\<close> converts and is not below the number of lines: the list is
  not indexed, the result of the substitution is that of the text after the token, and it
  is a value when that text is within the limit too. A token whose line number has more
  digits makes the resolver raise \<open>ValueError\<close>, whatever the lines are. So a pattern that
  consists of one token \<open>[LINE n]\<close>, \<open>[LINE n(s)]\<close> or \<open>[LINE n(s/e)]\<close> with \<open>n\<close> at least
  the number of lines resolves to the empty string or raises \<open>ValueError\<close>, as the number
  of digits of \<open>n\<close> decides. No pattern ever raises \<open>IndexError\<close>.
\<close>

theorem out_of_range_token_empty:
  "(match_line_token U s = Some ((g1, g2, g3), rest) \<and> within_int_limit U g1 \<and>
    length lines \<le> digits_value U g1 \<longrightarrow>
      replace_token U lines (g1, g2, g3) = Inr [] \<and>
      build_value_from_line_pattern U lines s = build_value_from_line_pattern U lines rest \<and>
      (within_int_limit U rest \<longrightarrow> (\<exists>v. build_value_from_line_pattern U lines s = Inr v))) \<and>
   (match_line_token U s = Some ((g1, g2, g3), rest) \<and> \<not> within_int_limit U g1 \<longrightarrow>
      build_value_from_line_pattern U lines s = Inl ValueError) \<and>
   (length lines \<le> n \<longrightarrow>
      build_value_from_line_pattern U lines (line_token n r) =
        (if within_int_limit U (str_of_nat n) then Inr [] else Inl ValueError)) \<and>
   build_value_from_line_pattern U lines p \<noteq> Inl IndexError"
proof (intro conjI impI)
  assume a: "match_line_token U s = Some ((g1, g2, g3), rest) \<and> within_int_limit U g1 \<and>
    length lines \<le> digits_value U g1"
  then have e: "replace_token U lines (g1, g2, g3) = Inr []"
    by (intro replace_token_out_of_range) simp_all
  from a have m: "match_line_token U s = Some ((g1, g2, g3), rest)" by simp
  from e show "replace_token U lines (g1, g2, g3) = Inr []" .
  from sub_tokens_token_rest [OF m e]
  show eq: "build_value_from_line_pattern U lines s = build_value_from_line_pattern U lines rest"
    by (simp add: build_value_from_line_pattern_def)
  assume "within_int_limit U rest"
  then obtain v where "sub_tokens U lines rest = Inr v"
    using sub_tokens_fits by blast
  with eq show "\<exists>v. build_value_from_line_pattern U lines s = Inr v"
    by (simp add: build_value_from_line_pattern_def)
next
  assume a: "match_line_token U s = Some ((g1, g2, g3), rest) \<and> \<not> within_int_limit U g1"
  then have "replace_token U lines (g1, g2, g3) = Inl ValueError"
    by (intro replace_token_beyond) simp
  with a have "sub_tokens U lines s = Inl ValueError"
    by (intro sub_tokens_token_error [of U s "(g1, g2, g3)" rest]) simp_all
  then show "build_value_from_line_pattern U lines s = Inl ValueError"
    by (simp add: build_value_from_line_pattern_def)
next
  assume l: "length lines \<le> n"
  let ?m = "(str_of_nat n,
    (case r of None \<Rightarrow> None | Some (s, _) \<Rightarrow> Some (str_of_nat s)),
    (case r of Some (_, Some e) \<Rightarrow> Some (str_of_nat e) | _ \<Rightarrow> None))"
  have m: "match_line_token U (line_token n r) = Some (?m, [])"
    using match_line_token_rendered [of U n r "[]"] by simp
  have "sub_tokens U lines (line_token n r) =
      (if within_int_limit U (str_of_nat n) then Inr [] else Inl ValueError)"
  proof (cases "within_int_limit U (str_of_nat n)")
    case True
    then have e: "replace_token U lines ?m = Inr []"
      using l by (intro replace_token_out_of_range) (simp_all add: digits_value_str_of_nat)
    have "sub_tokens U lines (line_token n r) = Inr ([] @ [])"
      using m e by (rule sub_tokens_token) simp
    with True show ?thesis by simp
  next
    case False
    then have "replace_token U lines ?m = Inl ValueError"
      by (rule replace_token_beyond)
    with m have "sub_tokens U lines (line_token n r) = Inl ValueError"
      by (rule sub_tokens_token_error)
    with False show ?thesis by simp
  qed
  then show "build_value_from_line_pattern U lines (line_token n r) =
      (if within_int_limit U (str_of_nat n) then Inr [] else Inl ValueError)"
    by (simp add: build_value_from_line_pattern_def)
next
  show "build_value_from_line_pattern U lines p \<noteq> Inl IndexError"
    using sub_tokens_errors [of U lines p IndexError]
    by (auto simp: build_value_from_line_pattern_def)
qed

text \<open>
  A token for line 3 followed by text and a token for line 2, against two lines; and a
  token whose line number is 4301 times the digit 1.
\<close>

theorem out_of_range_token_empty_witness:
  "match_line_token sample_ucd (asc ''[LINE 3(2/5)].pdf'') =
     Some ((asc ''3'', Some (asc ''2''), Some (asc ''5'')), asc ''.pdf'') \<and>
   within_int_limit sample_ucd (asc ''3'') \<and>
   length [asc ''Ana'', asc ''Kovac''] \<le> digits_value sample_ucd (asc ''3'') \<and>
   replace_token sample_ucd [asc ''Ana'', asc ''Kovac''] (asc ''3'', Some (asc ''2''), Some (asc ''5'')) = Inr [] \<and>
   within_int_limit sample_ucd (asc ''.pdf'') \<and>
   build_value_from_line_pattern sample_ucd [asc ''Ana'', asc ''Kovac''] (asc ''[LINE 3(2/5)].pdf'') =
     Inr (asc ''.pdf'') \<and>
   match_line_token sample_ucd (asc ''[LINE '' @ replicate 4301 49 @ asc '']'') =
     Some ((replicate 4301 49, None, None), []) \<and>
   \<not> within_int_limit sample_ucd (replicate 4301 49) \<and>
   build_value_from_line_pattern sample_ucd [asc ''Ana'', asc ''Kovac'']
     (asc ''[LINE '' @ replicate 4301 49 @ asc '']'') = Inl ValueError \<and>
   length [asc ''Ana'', asc ''Kovac''] \<le> 2 \<and>
   within_int_limit sample_ucd (str_of_nat 2) \<and>
   build_value_from_line_pattern sample_ucd [asc ''Ana'', asc ''Kovac''] (line_token 2 (Some (4, None))) =
     Inr []"
proof -
  let ?lines = "[asc ''Ana'', asc ''Kovac'']"
  let ?big = "replicate 4301 (49 :: nat)"
  have m: "match_line_token sample_ucd (asc ''[LINE 3(2/5)].pdf'') =
     Some ((asc ''3'', Some (asc ''2''), Some (asc ''5'')), asc ''.pdf'')"
    by (simp add: match_line_token_def match_range_def asc_def is_space_def is_decimal_def Let_def)
  have w: "within_int_limit sample_ucd (asc ''3'')" "within_int_limit sample_ucd (asc ''.pdf'')"
    "within_int_limit sample_ucd (str_of_nat 2)"
    by (simp_all add: within_int_limit_def sample_ucd_def asc_def str_of_nat_small)
  have l: "length ?lines \<le> digits_value sample_ucd (asc ''3'')"
    by (simp add: digits_value_def digit_value_def asc_def)
  have t: "build_value_from_line_pattern sample_ucd ?lines (asc ''.pdf'') = Inr (asc ''.pdf'')"
    by (simp add: build_value_from_line_pattern_def match_line_token_def asc_def)
  have mb: "match_line_token sample_ucd (asc ''[LINE '' @ ?big @ asc '']'') =
     Some ((?big, None, None), [])"
    using match_line_token_plain [of ?big sample_ucd "[]"]
    by simp
  have nb: "\<not> within_int_limit sample_ucd ?big"
    by (simp add: within_int_limit_def sample_ucd_def)
  note inst = out_of_range_token_empty [where U = sample_ucd and lines = ?lines]
  from inst [of "asc ''[LINE 3(2/5)].pdf''" "asc ''3''" "Some (asc ''2'')" "Some (asc ''5'')" "asc ''.pdf''"]
    m w l t
  have 1: "replace_token sample_ucd ?lines (asc ''3'', Some (asc ''2''), Some (asc ''5'')) = Inr [] \<and>
    build_value_from_line_pattern sample_ucd ?lines (asc ''[LINE 3(2/5)].pdf'') = Inr (asc ''.pdf'')"
    by simp
  from inst [of "asc ''[LINE '' @ ?big @ asc '']''" ?big None None "[]"] mb nb
  have 2: "build_value_from_line_pattern sample_ucd ?lines (asc ''[LINE '' @ ?big @ asc '']'') =
    Inl ValueError"
    by blast
  from inst [of _ _ _ _ _ 2 "Some (4, None)"] w(3)
  have 3: "build_value_from_line_pattern sample_ucd ?lines (line_token 2 (Some (4, None))) = Inr []"
    by simp
  from m w l 1 mb nb 2 3 show ?thesis by simp
qed

text \<open>
  C7 as stated has the resolver never raise. With the default limit of 4300 digits, the
  pattern that consists of \<open>[LINE\<close>, a blank, 4301 times the digit 1 and \<open>]\<close> raises
  \<open>ValueError\<close> against any lines: its line number is far beyond their number, but \<open>int\<close>
  fails before the two are compared.
\<close>

theorem long_line_number_raises:
  "build_value_from_line_pattern sample_ucd [asc ''Ana'', asc ''Kovac'']
     (asc ''[LINE '' @ replicate 4301 49 @ asc '']'') = Inl ValueError \<and>
   length (replicate 4301 (49 :: nat)) = 4301 \<and> int_max_str_digits sample_ucd = 4300"
proof -
  let ?big = "replicate 4301 (49 :: nat)"
  have "match_line_token sample_ucd (asc ''[LINE '' @ ?big @ asc '']'') =
     Some ((?big, None, None), [])"
    using match_line_token_plain [of ?big sample_ucd "[]"]
    by simp
  moreover have "replace_token sample_ucd [asc ''Ana'', asc ''Kovac''] (?big, None, None) =
      Inl ValueError"
    by (rule replace_token_beyond)
      (simp add: within_int_limit_def sample_ucd_def)
  ultimately have "sub_tokens sample_ucd [asc ''Ana'', asc ''Kovac'']
      (asc ''[LINE '' @ ?big @ asc '']'') = Inl ValueError"
    by (rule sub_tokens_token_error)
  then show ?thesis
    by (simp add: build_value_from_line_pattern_def sample_ucd_def)
qed

section \<open>The path allocator: claim C5\<close>

lemma unique_path_loop_finds:
  assumes "\<forall>i. c \<le> i \<and> i < N \<longrightarrow> root @ asc ''_'' @ str_of_nat i @ ext |\<in>| fs"
    and "root @ asc ''_'' @ str_of_nat N @ ext |\<notin>| fs" and "c \<le> N"
  shows "unique_path_loop fs root ext c = Some (root @ asc ''_'' @ str_of_nat N @ ext)"
  using assms
proof (induction "N - c" arbitrary: c)
  case 0
  then have "c = N" by simp
  with 0 show ?case by (subst unique_path_loop.simps) simp
next
  case (Suc d)
  then have "c < N" by simp
  with Suc.prems have "root @ asc ''_'' @ str_of_nat c @ ext |\<in>| fs" by simp
  moreover have "unique_path_loop fs root ext (c + 1) = Some (root @ asc ''_'' @ str_of_nat N @ ext)"
    using Suc.hyps(2) Suc.prems \<open>c < N\<close> by (intro Suc.hyps(1)) auto
  ultimately show ?case by (subst unique_path_loop.simps) simp
qed

lemma splitext_report: "splitext (asc ''out/report.pdf'') = (asc ''out/report'', asc ''.pdf'')"
  by (simp add: splitext_def rfind_def asc_def Let_def)

text \<open>
  C5. \<open>get_unique_path\<close> returns the desired path unchanged when nothing exists at it. When
  the path exists, together with the variants \<open>root_1ext\<close>, ..., \<open>root_(N-1)ext\<close> of its
  \<open>splitext\<close> parts, and \<open>root_Next\<close> does not, the result is \<open>root_Next\<close>: the candidates
  are tried with the counter going up from 1 and the first free one is taken.
\<close>

theorem get_unique_path_first_free:
  "(base_path |\<notin>| fs \<longrightarrow> get_unique_path fs base_path = Some base_path) \<and>
   (base_path |\<in>| fs \<and> splitext base_path = (root, ext) \<and> 1 \<le> N \<and>
    (\<forall>i. 1 \<le> i \<and> i < N \<longrightarrow> root @ asc ''_'' @ str_of_nat i @ ext |\<in>| fs) \<and>
    root @ asc ''_'' @ str_of_nat N @ ext |\<notin>| fs \<longrightarrow>
    get_unique_path fs base_path = Some (root @ asc ''_'' @ str_of_nat N @ ext))"
  using unique_path_loop_finds [of 1 N root ext fs]
  by (auto simp: get_unique_path_def)

text \<open>A new name, and a report that already exists with its first two variants.\<close>

theorem get_unique_path_first_free_witness:
  "asc ''out/new.pdf'' |\<notin>| {|asc ''out/report.pdf'', asc ''out/report_1.pdf'', asc ''out/report_2.pdf''|} \<and>
   get_unique_path {|asc ''out/report.pdf'', asc ''out/report_1.pdf'', asc ''out/report_2.pdf''|}
     (asc ''out/new.pdf'') = Some (asc ''out/new.pdf'') \<and>
   asc ''out/report.pdf'' |\<in>| {|asc ''out/report.pdf'', asc ''out/report_1.pdf'', asc ''out/report_2.pdf''|} \<and>
   splitext (asc ''out/report.pdf'') = (asc ''out/report'', asc ''.pdf'') \<and>
   get_unique_path {|asc ''out/report.pdf'', asc ''out/report_1.pdf'', asc ''out/report_2.pdf''|}
     (asc ''out/report.pdf'') = Some (asc ''out/report_3.pdf'')"
proof -
  let ?fs = "{|asc ''out/report.pdf'', asc ''out/report_1.pdf'', asc ''out/report_2.pdf''|}"
  have s: "str_of_nat (Suc 0) = asc ''1''" "str_of_nat 2 = asc ''2''" "str_of_nat 3 = asc ''3''"
    by (simp_all add: str_of_nat_small asc_def)
  have a: "asc ''out/new.pdf'' |\<notin>| ?fs" by (simp add: asc_def)
  have b: "asc ''out/report.pdf'' |\<in>| ?fs" by simp
  have c: "\<forall>i. 1 \<le> i \<and> i < 3 \<longrightarrow> asc ''out/report'' @ asc ''_'' @ str_of_nat i @ asc ''.pdf'' |\<in>| ?fs"
  proof (intro allI impI)
    fix i :: nat assume "1 \<le> i \<and> i < 3"
    then have "i = 1 \<or> i = 2" by auto
    then show "asc ''out/report'' @ asc ''_'' @ str_of_nat i @ asc ''.pdf'' |\<in>| ?fs"
      by (auto simp: s asc_def)
  qed
  have d: "asc ''out/report'' @ asc ''_'' @ str_of_nat 3 @ asc ''.pdf'' |\<notin>| ?fs"
    by (simp add: s asc_def)
  have e: "asc ''out/report'' @ asc ''_'' @ str_of_nat 3 @ asc ''.pdf'' = asc ''out/report_3.pdf''"
    by (simp add: s asc_def)
  from get_unique_path_first_free [of "asc ''out/new.pdf''" ?fs] a
  have 1: "get_unique_path ?fs (asc ''out/new.pdf'') = Some (asc ''out/new.pdf'')" by blast
  from get_unique_path_first_free [of "asc ''out/report.pdf''" ?fs "asc ''out/report''" "asc ''.pdf''" 3] b c d splitext_report
  have "get_unique_path ?fs (asc ''out/report.pdf'') =
      Some (asc ''out/report'' @ asc ''_'' @ str_of_nat 3 @ asc ''.pdf'')" by simp
  with e have 2: "get_unique_path ?fs (asc ''out/report.pdf'') = Some (asc ''out/report_3.pdf'')"
    by simp
  from a 1 b splitext_report 2 show ?thesis by blast
qed

section \<open>The allocation loops return\<close>

text \<open>
  The candidates of a loop are pairwise different and the set of existing paths is finite,
  so every loop reaches a free name.
\<close>

lemma ex_free_index:
  fixes f :: "nat \<Rightarrow> 'a"
  assumes "finite S" and "inj f"
  shows "\<exists>k\<ge>c. f k \<notin> S"
proof (rule ccontr)
  assume "\<not> (\<exists>k\<ge>c. f k \<notin> S)"
  then have "f ` {c..} \<subseteq> S" by auto
  then have "finite (f ` {c..})" using assms(1) by (rule finite_subset)
  moreover have "inj_on f {c..}" using assms(2) by (rule inj_on_subset) simp
  ultimately have "finite {c..}" by (rule finite_imageD)
  then show False by (simp add: infinite_Ici)
qed

lemma path_join_prefix:
  assumes "b \<noteq> []"
  shows "\<exists>P. \<forall>t. path_join d (b @ t) = P @ b @ t"
proof -
  obtain c b' where b: "b = c # b'" using assms by (cases b) auto
  show ?thesis
  proof (cases "c = 47")
    case True
    with b have "\<forall>t. path_join d (b @ t) = [] @ b @ t" by (simp add: path_join_def)
    then show ?thesis by blast
  next
    case False
    show ?thesis
    proof (cases "d = [] \<or> last d = 47")
      case True
      with False b have "\<forall>t. path_join d (b @ t) = d @ b @ t" by (auto simp: path_join_def)
      then show ?thesis by blast
    next
      case False
      with \<open>c \<noteq> 47\<close> b have "\<forall>t. path_join d (b @ t) = (d @ [47]) @ b @ t"
        by (auto simp: path_join_def)
      then show ?thesis by blast
    qed
  qed
qed

lemma join_numbered_inj:
  assumes "b \<noteq> []"
  shows "inj (\<lambda>k. path_join d (b @ str_of_nat k @ ext))"
proof (rule injI)
  fix k k'
  assume e: "path_join d (b @ str_of_nat k @ ext) = path_join d (b @ str_of_nat k' @ ext)"
  from path_join_prefix [OF assms, of d] obtain P where
    P: "\<And>t. path_join d (b @ t) = P @ b @ t" by blast
  from e have "str_of_nat k = str_of_nat k'" by (simp add: P)
  then show "k = k'" by (rule str_of_nat_inj)
qed

lemma final_name_loop_from:
  "path_join d (base @ asc ''_'' @ str_of_nat (c + n) @ ext) |\<notin>| fs \<Longrightarrow>
   \<exists>r. final_name_loop fs d base ext (base @ asc ''_'' @ str_of_nat c @ ext) (c + 1) = Some r"
proof (induction n arbitrary: c)
  case 0
  then show ?case by (subst final_name_loop.simps) simp
next
  case (Suc n)
  from Suc.prems have "path_join d (base @ asc ''_'' @ str_of_nat (Suc c + n) @ ext) |\<notin>| fs"
    by simp
  from Suc.IH [OF this] obtain r where
    "final_name_loop fs d base ext (base @ asc ''_'' @ str_of_nat (Suc c) @ ext) (Suc c + 1) = Some r"
    by blast
  then show ?case by (subst final_name_loop.simps) simp
qed

lemma final_name_loop_terminates:
  "\<exists>r. final_name_loop fs d base ext name 1 = Some r"
proof -
  have "inj (\<lambda>k. path_join d ((base @ asc ''_'') @ str_of_nat k @ ext))"
    by (rule join_numbered_inj) (simp add: asc_def)
  then obtain k where "k \<ge> 1"
    and "path_join d ((base @ asc ''_'') @ str_of_nat k @ ext) \<notin> fset fs"
    using ex_free_index [of "fset fs" _ 1] by auto
  then have "path_join d (base @ asc ''_'' @ str_of_nat (1 + (k - 1)) @ ext) |\<notin>| fs"
    by simp
  from final_name_loop_from [OF this] obtain r where
    "final_name_loop fs d base ext (base @ asc ''_'' @ str_of_nat 1 @ ext) (1 + 1) = Some r"
    by blast
  then show ?thesis by (subst final_name_loop.simps) simp
qed

lemma auditlog_path_loop_from:
  "path_join outdir (asc ''audit_log_'' @ ds @ asc ''_'' @ str_of_nat (c + n) @ asc ''.csv'') |\<notin>| fs \<Longrightarrow>
   \<exists>r. auditlog_path_loop fs outdir ds c = Some r"
proof (induction n arbitrary: c)
  case 0
  then show ?case by (subst auditlog_path_loop.simps) simp
next
  case (Suc n)
  from Suc.prems have
    "path_join outdir (asc ''audit_log_'' @ ds @ asc ''_'' @ str_of_nat (Suc c + n) @ asc ''.csv'') |\<notin>| fs"
    by simp
  from Suc.IH [OF this] obtain r where "auditlog_path_loop fs outdir ds (c + 1) = Some r"
    by auto
  then show ?case by (subst auditlog_path_loop.simps) simp
qed

lemma get_unique_auditlog_path_terminates:
  "\<exists>r. get_unique_auditlog_path fs ds outdir = Some r"
proof -
  have "inj (\<lambda>k. path_join outdir ((asc ''audit_log_'' @ ds @ asc ''_'') @ str_of_nat k @ asc ''.csv''))"
    by (rule join_numbered_inj) (simp add: asc_def)
  then obtain k where "k \<ge> 1"
    and "path_join outdir ((asc ''audit_log_'' @ ds @ asc ''_'') @ str_of_nat k @ asc ''.csv'') \<notin> fset fs"
    using ex_free_index [of "fset fs" _ 1] by auto
  then have
    "path_join outdir (asc ''audit_log_'' @ ds @ asc ''_'' @ str_of_nat (1 + (k - 1)) @ asc ''.csv'') |\<notin>| fs"
    by simp
  from auditlog_path_loop_from [OF this] show ?thesis
    by (auto simp: get_unique_auditlog_path_def Let_def)
qed




section \<open>The page loop, step by step\<close>

lemma build_value_fits:
  "within_int_limit U p \<Longrightarrow> \<exists>v. build_value_from_line_pattern U lines p = Inr v"
  by (simp add: build_value_from_line_pattern_def sub_tokens_fits)

lemma build_value_errors:
  "build_value_from_line_pattern U lines p = Inl e \<Longrightarrow> e = ValueError"
  by (simp add: build_value_from_line_pattern_def sub_tokens_errors)

lemma build_filename_value:
  assumes "build_value_from_line_pattern U lines p = Inr raw"
  shows "\<exists>v. build_filename_from_line_pattern U lines p = Inr v"
  using assms
  by (cases "splitext (if \<not> endswith (py_lower U raw) (asc ''.pdf'') then raw @ asc ''.pdf'' else raw)")
    (simp add: build_filename_from_line_pattern_def Let_def)

lemma build_filename_fits:
  "within_int_limit U p \<Longrightarrow> \<exists>v. build_filename_from_line_pattern U lines p = Inr v"
  using build_value_fits [of U p lines] build_filename_value [of U lines p] by blast

lemma build_filename_errors:
  assumes "build_filename_from_line_pattern U lines p = Inl e"
  shows "e = ValueError"
proof (cases "build_value_from_line_pattern U lines p")
  case (Inl e')
  with assms have "e' = e" by (simp add: build_filename_from_line_pattern_def)
  with Inl show ?thesis by (auto dest: build_value_errors)
next
  case (Inr raw)
  with build_filename_value [OF Inr] assms show ?thesis by auto
qed

lemma names_resolve_fits: "patterns_within_int_limit E A \<Longrightarrow> names_resolve E A text"
proof -
  assume a: "patterns_within_int_limit E A"
  obtain fn where
    "build_filename_from_line_pattern (tables E) (splitlines text) (file_pattern A) = Inr fn"
    using a build_filename_fits unfolding patterns_within_int_limit_def by blast
  moreover obtain raw where
    "build_value_from_line_pattern (tables E) (splitlines text) (folder_pattern A) = Inr raw"
    using a build_value_fits unfolding patterns_within_int_limit_def by blast
  ultimately show ?thesis by (simp add: names_resolve_def)
qed

lemma names_resolveD:
  assumes "names_resolve E A text"
  obtains fn raw where
    "build_filename_from_line_pattern (tables E) (splitlines text) (file_pattern A) = Inr fn"
    "build_value_from_line_pattern (tables E) (splitlines text) (folder_pattern A) = Inr raw"
  using assms by (auto simp: names_resolve_def split: sum.splits)

lemma log_world [simp]:
  "files (log cb m w) = files w"
  "trace (log cb m w) = trace w @ (if cb then [AppLog m, Callback m] else [AppLog m])"
  by (simp_all add: log_def write_app_log_def Let_def)

lemma write_app_log_world [simp]:
  "files (write_app_log m w) = files w"
  "trace (write_app_log m w) = trace w @ [AppLog m]"
  by (simp_all add: write_app_log_def)

lemma save_pdf_world [simp]:
  "files (save_pdf p a b w) = finsert p (files w)"
  "trace (save_pdf p a b w) = trace w @ [SavePdf p a b]"
  by (simp_all add: save_pdf_def)

text \<open>\<open>os.makedirs\<close> either raises an \<open>OSError\<close> and leaves the world alone, or makes the path.\<close>

lemma makedirs_cases:
  obtains (fails) e where "makedirs E path w = Inl (OSError e)"
  | (makes) w1 where "makedirs E path w = Inr w1" "files w1 = finsert path (files w)"
      "trace w1 = trace w @ [MakeDirs path]"
proof (cases "path = []")
  case True
  then have "makedirs E path w = Inl (OSError FileNotFoundError)" by (simp add: makedirs_def)
  then show ?thesis by (rule fails)
next
  case False
  show ?thesis
  proof (cases "makedirs_error E (files w) path")
    case None
    with False have "makedirs E path w =
        Inr (w\<lparr>files := finsert path (files w), trace := trace w @ [MakeDirs path]\<rparr>)"
      by (simp add: makedirs_def)
    then show ?thesis by (rule makes) simp_all
  next
    case (Some e)
    with False have "makedirs E path w = Inl (OSError e)" by (simp add: makedirs_def)
    then show ?thesis by (rule fails)
  qed
qed

lemma makedirs_succeeds:
  assumes "path \<noteq> []" and "makedirs_never_fails E"
  shows "makedirs E path w =
    Inr (w\<lparr>files := finsert path (files w), trace := trace w @ [MakeDirs path]\<rparr>)"
  using assms by (simp add: makedirs_def makedirs_never_fails_def)

lemma path_join_nonempty: "a \<noteq> [] \<or> b \<noteq> [] \<Longrightarrow> path_join a b \<noteq> []"
  by (auto simp: path_join_def split: list.splits)

lemma debug_lines_world:
  "files (foldl (\<lambda>w (idx, line). log cb (DebugLine idx line) w) w xs) = files w \<and>
   (\<exists>new. trace (foldl (\<lambda>w (idx, line). log cb (DebugLine idx line) w) w xs) = trace w @ new \<and>
      list_all is_log_effect new)"
proof (induction xs arbitrary: w)
  case Nil
  show ?case by simp
next
  case (Cons x xs)
  obtain idx line where x: "x = (idx, line)" by (cases x)
  from Cons [of "log cb (DebugLine idx line) w"] x show ?case by auto
qed

lemma debug_dump_world:
  "files (debug_dump cb n lines w) = files w \<and>
   (\<exists>new. trace (debug_dump cb n lines w) = trace w @ new \<and> list_all is_log_effect new)"
  using debug_lines_world [of cb "log cb (DebugPage n) w" "zip [0..<length lines] lines"]
  by (auto simp: debug_dump_def)

lemma manual_review_safe:
  assumes "safe_mode A"
  shows "\<exists>st' w'. manual_review A rd i text fn raw fname (st, w) = (Inr st', w') \<and>
    files w' = files w \<and>
    (\<exists>new. trace w' = trace w @ new \<and> list_all is_log_effect new) \<and>
    decisions st' = decisions st @
      [\<lparr>resolved = False, file_name = fn, folder_raw = raw, folder_name = fname,
        target_directory = None\<rparr>] \<and>
    success st' = success st \<and> failed st' = failed st + 1 \<and>
    (\<exists>row. audit_rows st' = audit_rows st @ [row] \<and> Page row = i + 1 \<and>
       FolderRaw row = raw \<and> FolderName row = fname \<and> Filename row = [] \<and>
       Status row = asc ''Failed (SAFE mode)'')"
  using assms by (simp add: manual_review_def Let_def)

lemma manual_review_live:
  assumes "\<not> safe_mode A"
  shows "\<exists>st' w'. manual_review A (Some rd) i text fn raw fname (st, w) = (Inr st', w') \<and>
    (\<exists>new. trace w' = trace w @ new) \<and>
    decisions st' = decisions st @
      [\<lparr>resolved = False, file_name = fn, folder_raw = raw, folder_name = fname,
        target_directory = None\<rparr>] \<and>
    success st' = success st \<and> failed st' = failed st + 1 \<and>
    (\<exists>row. audit_rows st' = audit_rows st @ [row] \<and> Page row = i + 1 \<and>
       FolderRaw row = raw \<and> FolderName row = fname \<and> Filename row = [] \<and>
       Status row = asc ''Failed'')"
  using assms by (simp add: manual_review_def Let_def)

lemma save_page_safe:
  assumes "safe_mode A"
  shows "\<exists>st' w'. save_page E A i fn raw fname (st, w) = Some (Inr st', w') \<and>
    files w' = files w \<and>
    (\<exists>new. trace w' = trace w @ new \<and> list_all is_log_effect new) \<and>
    decisions st' = decisions st @
      [\<lparr>resolved = True, file_name = fn, folder_raw = raw, folder_name = fname,
        target_directory =
          Some (if save_to_folders A then
                  (if fname \<noteq> [] then path_join (out_dir A) fname
                   else path_join (out_dir A) (asc ''unknown''))
                else out_dir A)\<rparr>] \<and>
    success st' = success st \<and> failed st' = failed st \<and>
    (\<exists>row. audit_rows st' = audit_rows st @ [row] \<and> Page row = i + 1 \<and>
       FolderRaw row = raw \<and> FolderName row = fname \<and> Filename row = fn \<and>
       Status row = asc ''OK (SAFE mode)'')"
  using assms by (simp add: save_page_def Let_def)

text \<open>
  In a live run the page is saved unless \<open>os.makedirs(target_dir)\<close> raises; the loop that
  looks for a free name always ends.
\<close>

lemma save_page_live:
  assumes "\<not> safe_mode A"
  shows "(\<exists>e. save_page E A i fn raw fname (st, w) = Some (Inl (OSError e), w)) \<or>
    (\<exists>st' w'. save_page E A i fn raw fname (st, w) = Some (Inr st', w') \<and>
      (\<exists>new. trace w' = trace w @ new) \<and>
      decisions st' = decisions st @
        [\<lparr>resolved = True, file_name = fn, folder_raw = raw, folder_name = fname,
          target_directory =
            Some (if save_to_folders A then
                    (if fname \<noteq> [] then path_join (out_dir A) fname
                     else path_join (out_dir A) (asc ''unknown''))
                  else out_dir A)\<rparr>] \<and>
      success st' = success st + 1 \<and> failed st' = failed st \<and>
      (\<exists>row. audit_rows st' = audit_rows st @ [row] \<and> Page row = i + 1 \<and>
         FolderRaw row = raw \<and> FolderName row = fname \<and> Status row = asc ''OK''))"
proof -
  define td where "td = (if save_to_folders A then
      (if fname \<noteq> [] then path_join (out_dir A) fname else path_join (out_dir A) (asc ''unknown''))
    else out_dir A)"
  show ?thesis
  proof (cases rule: makedirs_cases [of E td w])
    case (fails e)
    with assms have "save_page E A i fn raw fname (st, w) = Some (Inl (OSError e), w)"
      by (simp add: save_page_def Let_def td_def)
    then show ?thesis by blast
  next
    case (makes w1)
    obtain base ext where be: "splitext fn = (base, ext)" by (cases "splitext fn")
    obtain final_name where
      "final_name_loop (files w1) td base ext fn 1 = Some final_name"
      using final_name_loop_terminates by blast
    with assms be makes show ?thesis
      by (simp add: save_page_def Let_def td_def)
  qed
qed

lemma save_page_live_succeeds:
  assumes "\<not> safe_mode A" and "out_dir A \<noteq> []" and "makedirs_never_fails E"
  shows "\<exists>st' w'. save_page E A i fn raw fname (st, w) = Some (Inr st', w')"
proof -
  define td where "td = (if save_to_folders A then
      (if fname \<noteq> [] then path_join (out_dir A) fname else path_join (out_dir A) (asc ''unknown''))
    else out_dir A)"
  have "td \<noteq> []" using assms(2) by (simp add: td_def path_join_nonempty)
  note mk = makedirs_succeeds [OF this assms(3), of w]
  obtain base ext where be: "splitext fn = (base, ext)" by (cases "splitext fn")
  obtain final_name where
    "final_name_loop (finsert td (files w)) td base ext fn 1 = Some final_name"
    using final_name_loop_terminates by blast
  with assms(1) be mk show ?thesis
    by (simp add: save_page_def Let_def td_def)
qed

lemma debug_dump_files [simp]: "files (debug_dump cb n lines w) = files w"
  using debug_dump_world [of cb n lines w] by simp

lemma debug_dump_trace:
  "\<exists>new. trace (debug_dump cb n lines w) = trace w @ new \<and> list_all is_log_effect new"
  using debug_dump_world [of cb n lines w] by simp

lemma page_step_unfold:
  assumes "build_filename_from_line_pattern (tables E) (splitlines text) (file_pattern A) = Inr fn"
    and "build_value_from_line_pattern (tables E) (splitlines text) (folder_pattern A) = Inr raw"
    and "fname = (if raw \<noteq> [] then normalize_folder_name (tables E) raw else [])"
    and "w1 = (if safe_mode A \<and> i = 0
               then debug_dump (has_callback A) (i + 1) (splitlines text) w else w)"
  shows "page_step E A rd i text (st, w) =
    (if fn = [] \<or> fn = asc ''.pdf'' then Some (manual_review A rd i text fn raw fname (st, w1))
     else save_page E A i fn raw fname (st, w1))"
  using assms by (simp add: page_step_def Let_def)

lemma spec_classify_unfold:
  assumes "build_filename_from_line_pattern (tables E) (splitlines text) (file_pattern A) = Inr fn"
    and "build_value_from_line_pattern (tables E) (splitlines text) (folder_pattern A) = Inr raw"
    and "fname = (if raw \<noteq> [] then normalize_folder_name (tables E) raw else [])"
  shows "spec_classify E A text =
    (if fn = [] \<or> fn = asc ''.pdf'' then
       \<lparr>resolved = False, file_name = fn, folder_raw = raw, folder_name = fname,
        target_directory = None\<rparr>
     else
       \<lparr>resolved = True, file_name = fn, folder_raw = raw, folder_name = fname,
        target_directory =
          Some (if save_to_folders A then
                  (if fname \<noteq> [] then path_join (out_dir A) fname
                   else path_join (out_dir A) (asc ''unknown''))
                else out_dir A)\<rparr>)"
  using assms by (simp add: spec_classify_def Let_def)

text \<open>A page on which a pattern raises ends the loop with that \<open>ValueError\<close>.\<close>

lemma page_step_raises:
  assumes "\<not> names_resolve E A text"
  shows "\<exists>w'. page_step E A rd i text (st, w) = Some (Inl ValueError, w') \<and>
    files w' = files w \<and>
    (\<exists>new. trace w' = trace w @ new \<and> list_all is_log_effect new)"
proof -
  define w1 where "w1 = (if safe_mode A \<and> i + 1 = 1
    then debug_dump (has_callback A) (i + 1) (splitlines text) w else w)"
  have f1: "files w1 = files w" by (simp add: w1_def)
  have t1: "\<exists>new. trace w1 = trace w @ new \<and> list_all is_log_effect new"
  proof (cases "safe_mode A \<and> i + 1 = 1")
    case True
    then show ?thesis by (simp add: w1_def debug_dump_trace)
  next
    case False
    then have "w1 = w" unfolding w1_def by (rule if_not_P)
    then show ?thesis by simp
  qed
  have "page_step E A rd i text (st, w) = Some (Inl ValueError, w1)"
  proof (cases "build_filename_from_line_pattern (tables E) (splitlines text) (file_pattern A)")
    case (Inl e)
    then have "e = ValueError" by (rule build_filename_errors)
    with Inl show ?thesis by (simp add: page_step_def Let_def w1_def)
  next
    case fn: (Inr fn)
    show ?thesis
    proof (cases "build_value_from_line_pattern (tables E) (splitlines text) (folder_pattern A)")
      case (Inl e)
      then have "e = ValueError" by (rule build_value_errors)
      with Inl fn show ?thesis by (simp add: page_step_def Let_def w1_def)
    next
      case (Inr raw)
      with fn assms show ?thesis by (simp add: names_resolve_def)
    qed
  qed
  with f1 t1 show ?thesis by blast
qed

lemma page_step_safe:
  assumes "safe_mode A" and "names_resolve E A text"
  shows "\<exists>st' w'. page_step E A rd i text (st, w) = Some (Inr st', w') \<and>
    files w' = files w \<and>
    (\<exists>new. trace w' = trace w @ new \<and> list_all is_log_effect new) \<and>
    success st' = success st \<and>
    page_recorded E A (asc ''OK (SAFE mode)'') i text st st'"
proof -
  from assms(2) obtain fn raw where fn:
    "build_filename_from_line_pattern (tables E) (splitlines text) (file_pattern A) = Inr fn"
    and raw:
    "build_value_from_line_pattern (tables E) (splitlines text) (folder_pattern A) = Inr raw"
    by (rule names_resolveD)
  define fname where "fname = (if raw \<noteq> [] then normalize_folder_name (tables E) raw else [])"
  define w1 where "w1 = (if safe_mode A \<and> i = 0
    then debug_dump (has_callback A) (i + 1) (splitlines text) w else w)"
  note ps = page_step_unfold [OF fn raw fname_def w1_def, of rd st]
  note sc = spec_classify_unfold [OF fn raw fname_def]
  have f1: "files w1 = files w" by (simp add: w1_def)
  have "\<exists>new1. trace w1 = trace w @ new1 \<and> list_all is_log_effect new1"
  proof (cases "safe_mode A \<and> i = 0")
    case True
    then show ?thesis by (simp add: w1_def debug_dump_trace)
  next
    case False
    then have "w1 = w" unfolding w1_def by (rule if_not_P)
    then show ?thesis by simp
  qed
  then obtain new1 where t1: "trace w1 = trace w @ new1" "list_all is_log_effect new1"
    by blast
  show ?thesis
  proof (cases "fn = [] \<or> fn = asc ''.pdf''")
    case True
    from manual_review_safe [OF assms(1), of rd i "text" fn raw fname st w1] obtain st' w' new row where
      "manual_review A rd i text fn raw fname (st, w1) = (Inr st', w')" "files w' = files w1"
      "trace w' = trace w1 @ new" "list_all is_log_effect new"
      "decisions st' = decisions st @
        [\<lparr>resolved = False, file_name = fn, folder_raw = raw, folder_name = fname,
          target_directory = None\<rparr>]"
      "success st' = success st" "failed st' = failed st + 1"
      "audit_rows st' = audit_rows st @ [row]" "Page row = i + 1" "FolderRaw row = raw"
      "FolderName row = fname" "Status row = asc ''Failed (SAFE mode)''"
      by blast
    with True f1 t1 show ?thesis by (simp add: ps sc page_recorded_def asc_def)
  next
    case False
    from save_page_safe [OF assms(1), of E i fn raw fname st w1] obtain st' w' new row where
      "save_page E A i fn raw fname (st, w1) = Some (Inr st', w')" "files w' = files w1"
      "trace w' = trace w1 @ new" "list_all is_log_effect new"
      "decisions st' = decisions st @
        [\<lparr>resolved = True, file_name = fn, folder_raw = raw, folder_name = fname,
          target_directory =
            Some (if save_to_folders A then
                    (if fname \<noteq> [] then path_join (out_dir A) fname
                     else path_join (out_dir A) (asc ''unknown''))
                  else out_dir A)\<rparr>]"
      "success st' = success st" "failed st' = failed st"
      "audit_rows st' = audit_rows st @ [row]" "Page row = i + 1" "FolderRaw row = raw"
      "FolderName row = fname" "Status row = asc ''OK (SAFE mode)''"
      by blast
    with False f1 t1 show ?thesis by (simp add: ps sc page_recorded_def)
  qed
qed

text \<open>
  In a live run a page whose patterns resolve is dealt with unless \<open>os.makedirs\<close> raises,
  and then nothing has been done for it.
\<close>

lemma page_step_live:
  assumes "\<not> safe_mode A" and "names_resolve E A text"
  shows "(\<exists>e. page_step E A (Some rd) i text (st, w) = Some (Inl (OSError e), w)) \<or>
    (\<exists>st' w'. page_step E A (Some rd) i text (st, w) = Some (Inr st', w') \<and>
      (\<exists>new. trace w' = trace w @ new) \<and>
      success st' = success st + (if resolved (spec_classify E A text) then 1 else 0) \<and>
      page_recorded E A (asc ''OK'') i text st st')"
proof -
  from assms(2) obtain fn raw where fn:
    "build_filename_from_line_pattern (tables E) (splitlines text) (file_pattern A) = Inr fn"
    and raw:
    "build_value_from_line_pattern (tables E) (splitlines text) (folder_pattern A) = Inr raw"
    by (rule names_resolveD)
  define fname where "fname = (if raw \<noteq> [] then normalize_folder_name (tables E) raw else [])"
  have w1: "w = (if safe_mode A \<and> i = 0
    then debug_dump (has_callback A) (i + 1) (splitlines text) w else w)"
    using assms(1) by simp
  note ps = page_step_unfold [OF fn raw fname_def w1, of "Some rd" st]
  note sc = spec_classify_unfold [OF fn raw fname_def]
  show ?thesis
  proof (cases "fn = [] \<or> fn = asc ''.pdf''")
    case True
    from manual_review_live [OF assms(1), of rd i "text" fn raw fname st w] obtain st' w' new row where
      "manual_review A (Some rd) i text fn raw fname (st, w) = (Inr st', w')"
      "trace w' = trace w @ new"
      "decisions st' = decisions st @
        [\<lparr>resolved = False, file_name = fn, folder_raw = raw, folder_name = fname,
          target_directory = None\<rparr>]"
      "success st' = success st" "failed st' = failed st + 1"
      "audit_rows st' = audit_rows st @ [row]" "Page row = i + 1" "FolderRaw row = raw"
      "FolderName row = fname" "Status row = asc ''Failed''"
      by blast
    with True show ?thesis by (simp add: ps sc page_recorded_def asc_def)
  next
    case False
    from save_page_live [OF assms(1), of E i fn raw fname st w]
    show ?thesis
    proof
      assume "\<exists>e. save_page E A i fn raw fname (st, w) = Some (Inl (OSError e), w)"
      with False show ?thesis by (simp add: ps)
    next
      assume "\<exists>st' w'. save_page E A i fn raw fname (st, w) = Some (Inr st', w') \<and>
        (\<exists>new. trace w' = trace w @ new) \<and>
        decisions st' = decisions st @
          [\<lparr>resolved = True, file_name = fn, folder_raw = raw, folder_name = fname,
            target_directory =
              Some (if save_to_folders A then
                      (if fname \<noteq> [] then path_join (out_dir A) fname
                       else path_join (out_dir A) (asc ''unknown''))
                    else out_dir A)\<rparr>] \<and>
        success st' = success st + 1 \<and> failed st' = failed st \<and>
        (\<exists>row. audit_rows st' = audit_rows st @ [row] \<and> Page row = i + 1 \<and>
           FolderRaw row = raw \<and> FolderName row = fname \<and> Status row = asc ''OK'')"
      then obtain st' w' new row where
        "save_page E A i fn raw fname (st, w) = Some (Inr st', w')"
        "trace w' = trace w @ new"
        "decisions st' = decisions st @
          [\<lparr>resolved = True, file_name = fn, folder_raw = raw, folder_name = fname,
            target_directory =
              Some (if save_to_folders A then
                      (if fname \<noteq> [] then path_join (out_dir A) fname
                       else path_join (out_dir A) (asc ''unknown''))
                    else out_dir A)\<rparr>]"
        "success st' = success st + 1" "failed st' = failed st"
        "audit_rows st' = audit_rows st @ [row]" "Page row = i + 1" "FolderRaw row = raw"
        "FolderName row = fname" "Status row = asc ''OK''"
        by blast
      with False show ?thesis by (simp add: ps sc page_recorded_def)
    qed
  qed
qed

lemma page_step_live_succeeds:
  assumes "\<not> safe_mode A" and "names_resolve E A text" and "out_dir A \<noteq> []"
    and "makedirs_never_fails E"
  shows "\<exists>st' w'. page_step E A (Some rd) i text (st, w) = Some (Inr st', w')"
proof -
  from assms(2) obtain fn raw where fn:
    "build_filename_from_line_pattern (tables E) (splitlines text) (file_pattern A) = Inr fn"
    and raw:
    "build_value_from_line_pattern (tables E) (splitlines text) (folder_pattern A) = Inr raw"
    by (rule names_resolveD)
  define fname where "fname = (if raw \<noteq> [] then normalize_folder_name (tables E) raw else [])"
  have w1: "w = (if safe_mode A \<and> i = 0
    then debug_dump (has_callback A) (i + 1) (splitlines text) w else w)"
    using assms(1) by simp
  note ps = page_step_unfold [OF fn raw fname_def w1, of "Some rd" st]
  show ?thesis
  proof (cases "fn = [] \<or> fn = asc ''.pdf''")
    case True
    with manual_review_live [OF assms(1), of rd i "text" fn raw fname st w] show ?thesis
      by (auto simp: ps)
  next
    case False
    with save_page_live_succeeds [OF assms(1,3,4), of i fn raw fname st w] show ?thesis
      by (simp add: ps)
  qed
qed

text \<open>What a run of pages records is what its pages record, one after the other.\<close>

lemma pages_recorded_Nil: "pages_recorded E A ok i [] st st"
  by (simp add: pages_recorded_def)

lemma pages_recorded_Cons:
  assumes "page_recorded E A ok i t st st1" and "pages_recorded E A ok (i + 1) doc st1 st2"
  shows "pages_recorded E A ok i (t # doc) st st2"
proof -
  from assms(1) obtain row where r:
    "decisions st1 = decisions st @ [spec_classify E A t]"
    "failed st1 = failed st + (if resolved (spec_classify E A t) then 0 else 1)"
    "audit_rows st1 = audit_rows st @ [row]" "Page row = i + 1"
    "FolderRaw row = folder_raw (spec_classify E A t)"
    "FolderName row = folder_name (spec_classify E A t)"
    "(Status row = ok) = resolved (spec_classify E A t)"
    unfolding page_recorded_def by blast
  from assms(2) obtain rows where s:
    "decisions st2 = decisions st1 @ map (spec_classify E A) doc"
    "failed st2 = failed st1 + length (filter (\<lambda>t. \<not> resolved (spec_classify E A t)) doc)"
    "audit_rows st2 = audit_rows st1 @ rows"
    "map Page rows = [i + 1 + 1..<i + 1 + 1 + length doc]"
    "map FolderRaw rows = map (\<lambda>t. folder_raw (spec_classify E A t)) doc"
    "map FolderName rows = map (\<lambda>t. folder_name (spec_classify E A t)) doc"
    "map (\<lambda>r. Status r = ok) rows = map (\<lambda>t. resolved (spec_classify E A t)) doc"
    unfolding pages_recorded_def by blast
  have rows: "audit_rows st2 = audit_rows st @ (row # rows) \<and>
      map Page (row # rows) = [i + 1..<i + 1 + length (t # doc)] \<and>
      map FolderRaw (row # rows) = map (\<lambda>t. folder_raw (spec_classify E A t)) (t # doc) \<and>
      map FolderName (row # rows) = map (\<lambda>t. folder_name (spec_classify E A t)) (t # doc) \<and>
      map (\<lambda>r. Status r = ok) (row # rows) = map (\<lambda>t. resolved (spec_classify E A t)) (t # doc)"
    using r(3-7) s(3-7) upt_conv_Cons [of "i + 1" "i + 1 + length (t # doc)"]
    by (simp del: upt_Suc)
  have cnt: "decisions st2 = decisions st @ map (spec_classify E A) (t # doc) \<and>
      failed st2 = failed st + length (filter (\<lambda>t. \<not> resolved (spec_classify E A t)) (t # doc))"
    using r(1,2) s(1,2) by simp
  from rows cnt show ?thesis unfolding pages_recorded_def by blast
qed

lemma page_loop_safe:
  assumes "safe_mode A" and "\<forall>t \<in> set doc. names_resolve E A t"
  shows "\<exists>st' w'. page_loop E A rd i doc (st, w) = Some (Inr st', w') \<and>
    files w' = files w \<and>
    (\<exists>new. trace w' = trace w @ new \<and> list_all is_log_effect new) \<and>
    success st' = success st \<and>
    pages_recorded E A (asc ''OK (SAFE mode)'') i doc st st'"
  using assms(2)
proof (induction doc arbitrary: i st w)
  case Nil
  show ?case by (simp add: pages_recorded_Nil)
next
  case (Cons t doc)
  from Cons.prems have rt: "names_resolve E A t" and rd: "\<forall>t \<in> set doc. names_resolve E A t"
    by simp_all
  from page_step_safe [OF assms(1) rt, of rd i st w] obtain st1 w1 new1 where s1:
    "page_step E A rd i t (st, w) = Some (Inr st1, w1)" "files w1 = files w"
    "trace w1 = trace w @ new1" "list_all is_log_effect new1"
    "success st1 = success st" "page_recorded E A (asc ''OK (SAFE mode)'') i t st st1"
    by blast
  from Cons.IH [OF rd, of "i + 1" st1 w1] obtain st2 w2 new2 where s2:
    "page_loop E A rd (i + 1) doc (st1, w1) = Some (Inr st2, w2)" "files w2 = files w1"
    "trace w2 = trace w1 @ new2" "list_all is_log_effect new2"
    "success st2 = success st1" "pages_recorded E A (asc ''OK (SAFE mode)'') (i + 1) doc st1 st2"
    by blast
  have loop: "page_loop E A rd i (t # doc) (st, w) = Some (Inr st2, w2)"
    using s1(1) s2(1) by simp
  have tr: "trace w2 = trace w @ (new1 @ new2) \<and> list_all is_log_effect (new1 @ new2)"
    using s1(3,4) s2(3,4) by simp
  from loop tr s1(2,5) s2(2,5) pages_recorded_Cons [OF s1(6) s2(6)]
  show ?case by (metis (no_types, lifting))
qed

text \<open>
  A simulated run of pages ends, with its variables or with the \<open>ValueError\<close> of a
  pattern, and all it has done by then is log lines.
\<close>

lemma page_loop_safe_ends:
  assumes "safe_mode A"
  shows "\<exists>res w'. page_loop E A rd i doc (st, w) = Some (res, w') \<and>
    files w' = files w \<and>
    (\<exists>new. trace w' = trace w @ new \<and> list_all is_log_effect new) \<and>
    (res = Inl ValueError \<or> (\<exists>st'. res = Inr st'))"
proof (induction doc arbitrary: i st w)
  case Nil
  show ?case by simp
next
  case (Cons t doc)
  show ?case
  proof (cases "names_resolve E A t")
    case False
    from page_step_raises [OF False, of rd i st w] obtain w1 new1 where
      "page_step E A rd i t (st, w) = Some (Inl ValueError, w1)" "files w1 = files w"
      "trace w1 = trace w @ new1" "list_all is_log_effect new1"
      by blast
    then show ?thesis by simp
  next
    case True
    from page_step_safe [OF assms True, of rd i st w] obtain st1 w1 new1 where s1:
      "page_step E A rd i t (st, w) = Some (Inr st1, w1)" "files w1 = files w"
      "trace w1 = trace w @ new1" "list_all is_log_effect new1"
      by blast
    from Cons.IH [of "i + 1" st1 w1] obtain res w2 new2 where s2:
      "page_loop E A rd (i + 1) doc (st1, w1) = Some (res, w2)" "files w2 = files w1"
      "trace w2 = trace w1 @ new2" "list_all is_log_effect new2"
      "res = Inl ValueError \<or> (\<exists>st'. res = Inr st')"
      by blast
    have loop: "page_loop E A rd i (t # doc) (st, w) = Some (res, w2)"
      using s1(1) s2(1) by simp
    have tr: "trace w2 = trace w @ (new1 @ new2) \<and> list_all is_log_effect (new1 @ new2)"
      using s1(3,4) s2(3,4) by simp
    from loop tr s1(2) s2(2,5) show ?thesis by (metis (no_types, lifting))
  qed
qed

text \<open>
  A live run of pages that returns has met no error: the patterns resolve on every page,
  and every page is recorded.
\<close>

lemma page_loop_live_returns:
  assumes "\<not> safe_mode A"
    and "page_loop E A (Some rd) i doc (st, w) = Some (Inr st', w')"
  shows "(\<forall>t \<in> set doc. names_resolve E A t) \<and>
    (\<exists>new. trace w' = trace w @ new) \<and>
    success st' = success st + length (filter (\<lambda>t. resolved (spec_classify E A t)) doc) \<and>
    pages_recorded E A (asc ''OK'') i doc st st'"
  using assms(2)
proof (induction doc arbitrary: i st w)
  case Nil
  then show ?case by (simp add: pages_recorded_Nil)
next
  case (Cons t doc)
  from Cons.prems obtain st1 w1 where
    ps: "page_step E A (Some rd) i t (st, w) = Some (Inr st1, w1)"
    and pl: "page_loop E A (Some rd) (i + 1) doc (st1, w1) = Some (Inr st', w')"
    by (auto split: option.splits sum.splits)
  have rt: "names_resolve E A t"
    using page_step_raises [of E A t "Some rd" i st w] ps by auto
  from page_step_live [OF assms(1) rt, of rd i st w] ps obtain new1 where s1:
    "trace w1 = trace w @ new1"
    "success st1 = success st + (if resolved (spec_classify E A t) then 1 else 0)"
    "page_recorded E A (asc ''OK'') i t st st1"
    by auto
  from Cons.IH [OF pl] obtain new2 where s2:
    "\<forall>t \<in> set doc. names_resolve E A t" "trace w' = trace w1 @ new2"
    "success st' = success st1 + length (filter (\<lambda>t. resolved (spec_classify E A t)) doc)"
    "pages_recorded E A (asc ''OK'') (i + 1) doc st1 st'"
    by blast
  have "trace w' = trace w @ (new1 @ new2)" using s1(1) s2(2) by simp
  moreover have "success st' =
      success st + length (filter (\<lambda>t. resolved (spec_classify E A t)) (t # doc))"
    using s1(2) s2(3) by simp
  ultimately show ?case
    using rt s2(1) pages_recorded_Cons [OF s1(3) s2(4)] by auto
qed

text \<open>
  A live run of pages returns when the patterns resolve on every page and \<open>os.makedirs\<close>
  does not fail.
\<close>

lemma page_loop_live_succeeds:
  assumes "\<not> safe_mode A" and "out_dir A \<noteq> []" and "makedirs_never_fails E"
    and "\<forall>t \<in> set doc. names_resolve E A t"
  shows "\<exists>st' w'. page_loop E A (Some rd) i doc (st, w) = Some (Inr st', w')"
  using assms(4)
proof (induction doc arbitrary: i st w)
  case Nil
  show ?case by simp
next
  case (Cons t doc)
  from Cons.prems have rt: "names_resolve E A t" and rd: "\<forall>t \<in> set doc. names_resolve E A t"
    by simp_all
  from page_step_live_succeeds [OF assms(1) rt assms(2,3), of rd i st w] obtain st1 w1 where
    "page_step E A (Some rd) i t (st, w) = Some (Inr st1, w1)" by blast
  with Cons.IH [OF rd, of "i + 1" st1 w1] show ?case by simp
qed

lemma page_loop_live:
  assumes "\<not> safe_mode A" and "out_dir A \<noteq> []" and "makedirs_never_fails E"
    and "\<forall>t \<in> set doc. names_resolve E A t"
  shows "\<exists>st' w'. page_loop E A (Some rd) i doc (st, w) = Some (Inr st', w') \<and>
    (\<exists>new. trace w' = trace w @ new) \<and>
    success st' = success st + length (filter (\<lambda>t. resolved (spec_classify E A t)) doc) \<and>
    pages_recorded E A (asc ''OK'') i doc st st'"
proof -
  from page_loop_live_succeeds [OF assms, of rd i st w] obtain st' w' where
    l: "page_loop E A (Some rd) i doc (st, w) = Some (Inr st', w')" by blast
  from page_loop_live_returns [OF assms(1) l] l show ?thesis by blast
qed

text \<open>A live run of pages ends, and whatever it has done by then is added to the trace.\<close>

lemma page_loop_live_ends:
  assumes "\<not> safe_mode A"
  shows "\<exists>res w' new. page_loop E A (Some rd) i doc (st, w) = Some (res, w') \<and>
    trace w' = trace w @ new"
proof (induction doc arbitrary: i st w)
  case Nil
  show ?case by simp
next
  case (Cons t doc)
  show ?case
  proof (cases "names_resolve E A t")
    case False
    from page_step_raises [OF False, of "Some rd" i st w] obtain w1 new1 where
      "page_step E A (Some rd) i t (st, w) = Some (Inl ValueError, w1)"
      "trace w1 = trace w @ new1"
      by blast
    then show ?thesis by simp
  next
    case True
    from page_step_live [OF assms True, of rd i st w]
    show ?thesis
    proof
      assume "\<exists>e. page_step E A (Some rd) i t (st, w) = Some (Inl (OSError e), w)"
      then show ?thesis by auto
    next
      assume "\<exists>st' w'. page_step E A (Some rd) i t (st, w) = Some (Inr st', w') \<and>
        (\<exists>new. trace w' = trace w @ new) \<and>
        success st' = success st + (if resolved (spec_classify E A t) then 1 else 0) \<and>
        page_recorded E A (asc ''OK'') i t st st'"
      then obtain st1 w1 new1 where s1:
        "page_step E A (Some rd) i t (st, w) = Some (Inr st1, w1)" "trace w1 = trace w @ new1"
        by blast
      from Cons.IH [of "i + 1" st1 w1] obtain res w2 new2 where
        "page_loop E A (Some rd) (i + 1) doc (st1, w1) = Some (res, w2)"
        "trace w2 = trace w1 @ new2"
        by blast
      with s1 have "page_loop E A (Some rd) i (t # doc) (st, w) = Some (res, w2) \<and>
        trace w2 = trace w @ (new1 @ new2)" by simp
      then show ?thesis by blast
    qed
  qed
qed

lemma finish_split_safe:
  assumes "safe_mode A"
  shows "\<exists>w'. finish_split E A n st w =
      Some (\<lparr>sum_total = n, sum_success = success st, sum_failed = failed st,
              sum_audit_path = None\<rparr>, w') \<and>
    files w' = files w \<and> (\<exists>new. trace w' = trace w @ new \<and> list_all is_log_effect new)"
  using assms by (simp add: finish_split_def Let_def)

lemma finish_split_live:
  assumes "\<not> safe_mode A"
  shows "\<exists>ap w'. finish_split E A n st w =
      Some (\<lparr>sum_total = n, sum_success = success st, sum_failed = failed st,
              sum_audit_path = ap\<rparr>, w') \<and>
    (\<exists>new. trace w' = trace w @ new)"
proof -
  obtain p where "get_unique_auditlog_path (files w) (date_str E) (out_dir A) = Some p"
    using get_unique_auditlog_path_terminates by blast
  with assms show ?thesis
    by (simp add: finish_split_def Let_def auto_open_folder_def)
qed

text \<open>The directories a live run makes before its first page.\<close>

lemma make_run_dirs_safe: "safe_mode A \<Longrightarrow> make_run_dirs E A w = (Inr None, w)"
  by (simp add: make_run_dirs_def)

lemma make_run_dirs_live:
  assumes "\<not> safe_mode A"
  shows "(\<exists>e. make_run_dirs E A w = (Inl (OSError e), w)) \<or>
    (\<exists>e w1. make_run_dirs E A w = (Inl (OSError e), w1) \<and>
       trace w1 = trace w @ [MakeDirs (out_dir A)]) \<or>
    (\<exists>w2. make_run_dirs E A w = (Inr (Some (path_join (out_dir A) (asc ''!manual_review''))), w2) \<and>
       trace w2 = trace w @
         [MakeDirs (out_dir A), MakeDirs (path_join (out_dir A) (asc ''!manual_review''))])"
proof (cases rule: makedirs_cases [of E "out_dir A" w])
  case (fails e)
  with assms show ?thesis by (simp add: make_run_dirs_def)
next
  case (makes w1)
  show ?thesis
  proof (cases rule: makedirs_cases [of E "path_join (out_dir A) (asc ''!manual_review'')" w1])
    case (fails e)
    with assms makes show ?thesis by (simp add: make_run_dirs_def)
  next
    case makes2: (makes w2)
    with assms makes show ?thesis by (simp add: make_run_dirs_def)
  qed
qed

lemma make_run_dirs_live_succeeds:
  assumes "\<not> safe_mode A" and "out_dir A \<noteq> []" and "makedirs_never_fails E"
  shows "\<exists>w2. make_run_dirs E A w =
      (Inr (Some (path_join (out_dir A) (asc ''!manual_review''))), w2) \<and>
    trace w2 = trace w @
      [MakeDirs (out_dir A), MakeDirs (path_join (out_dir A) (asc ''!manual_review''))]"
proof -
  have "path_join (out_dir A) (asc ''!manual_review'') \<noteq> []"
    using assms(2) by (simp add: path_join_nonempty)
  with assms show ?thesis
    by (simp add: make_run_dirs_def makedirs_succeeds Let_def)
qed

section \<open>The split run: claims C1, C3, C4 and C9\<close>

text \<open>Two runs over a document of one page whose only line is \<open>Smith\<close>, worked out in full.\<close>

lemmas run_eval =
  split_pdf_full_def make_run_dirs_def page_step_def save_page_def manual_review_def
  finish_split_def build_filename_from_line_pattern_def build_value_from_line_pattern_def
  match_line_token_def match_range_def replace_token_def normalize_folder_name_def
  sanitize_filename_def splitext_def rfind_def path_join_def endswith_def py_lower_def
  ascii_lower_def splitlines_def is_linebreak_def debug_dump_def log_def write_app_log_def
  makedirs_def save_pdf_def auto_open_folder_def get_unique_auditlog_path_def
  is_space_def is_decimal_def is_word_def digit_value_def digits_value_def int_of_digits_def
  within_int_limit_def strip_def py_index_def asc_def Let_def sample_env_def sample_ucd_def
  sample_args_def empty_world_def

lemma finsert_again: "finsert x (finsert y (finsert x A)) = finsert x (finsert y A)"
  by auto

lemma safe_run_smith:
  "split_pdf_full sample_env sample_args [asc ''Smith''] empty_world =
     Some (Inr \<lparr>sum_total = 1, sum_success = 0, sum_failed = 0, sum_audit_path = None\<rparr>,
       \<lparr>files = {||},
        trace = [AppLog (SplitStarted (asc ''in.pdf'')), AppLog (DebugPage 1),
                 AppLog (DebugLine 0 (asc ''Smith'')), AppLog DebugRule,
                 AppLog (SafeWouldSave 1 (asc ''out/Smith.pdf'')), AppLog SafeNoAudit,
                 AppLog (SplitFinished 1 0 0)]\<rparr>)"
  by (simp add: run_eval)

lemma live_run_smith:
  "split_pdf_full sample_env (sample_args\<lparr>safe_mode := False\<rparr>) [asc ''Smith''] empty_world =
     Some (Inr \<lparr>sum_total = 1, sum_success = 1, sum_failed = 0,
                sum_audit_path = Some (asc ''out/audit_log_2024-05-31.csv'')\<rparr>,
       \<lparr>files = {|asc ''out/audit_log_2024-05-31.csv'', asc ''out/Smith.pdf'', asc ''out'',
                  asc ''out/!manual_review''|},
        trace = [AppLog (SplitStarted (asc ''in.pdf'')), MakeDirs (asc ''out''),
                 MakeDirs (asc ''out/!manual_review''), MakeDirs (asc ''out''),
                 SavePdf (asc ''out/Smith.pdf'') 0 0,
                 AppLog (PageSaved 1 (asc ''out/Smith.pdf'')),
                 WriteCsv (asc ''out/audit_log_2024-05-31.csv'')
                   [\<lparr>Page = 1, Status = asc ''OK'', Filename = asc ''Smith.pdf'',
                     FolderRaw = [], FolderName = [], Note = []\<rparr>],
                 AppLog (AuditLogSaved (asc ''out/audit_log_2024-05-31.csv'')),
                 AppLog (SplitFinished 1 1 0)]\<rparr>)"
  by (simp add: run_eval final_name_loop.simps finsert_again)

lemma spec_classify_safe_mode [simp]:
  "spec_classify E (A\<lparr>safe_mode := b\<rparr>) = spec_classify E A"
  by (rule ext) (simp add: spec_classify_def Let_def)

lemma names_resolve_safe_mode [simp]:
  "names_resolve E (A\<lparr>safe_mode := b\<rparr>) = names_resolve E A"
  by (rule ext) (simp add: names_resolve_def split: sum.splits)

lemma patterns_within_int_limit_safe_mode [simp]:
  "patterns_within_int_limit E (A\<lparr>safe_mode := b\<rparr>) = patterns_within_int_limit E A"
  by (simp add: patterns_within_int_limit_def)

lemma sample_conditions:
  "patterns_within_int_limit sample_env sample_args"
  "out_dir sample_args \<noteq> []"
  "makedirs_never_fails sample_env"
  by (simp_all add: patterns_within_int_limit_def within_int_limit_def makedirs_never_fails_def
      sample_env_def sample_ucd_def sample_args_def asc_def)

text \<open>A simulated run over a document with pages is the page loop and what follows it.\<close>

lemma split_pdf_full_safe:
  assumes "safe_mode A" and "doc \<noteq> []"
  shows "split_pdf_full E A doc w =
    (case page_loop E A None 0 doc
            (\<lparr>audit_rows = [], success = 0, failed = 0, decisions = []\<rparr>,
             log (has_callback A) (SplitStarted (inp_path A)) w) of
       None \<Rightarrow> None
     | Some (Inl e, w3) \<Rightarrow> Some (Inl e, w3)
     | Some (Inr st, w3) \<Rightarrow>
         (case finish_split E A (length doc) st w3 of
            None \<Rightarrow> None
          | Some (r, w4) \<Rightarrow> Some (Inr r, w4)))"
  using assms by (simp add: split_pdf_full_def make_run_dirs_safe Let_def)

text \<open>
  C1, as the code has it. A run in SAFE mode ends, with its summary or with the
  \<open>ValueError\<close> of a pattern whose number \<open>int\<close> does not convert; it leaves the set of
  existing paths as it was, and everything it does is log lines: no directory is created,
  no page is saved and no audit file is written, whatever the patterns and the pages are.
  Each log line is appended to the application log file by \<open>write_app_log\<close>; this is the
  only writing a simulated run does. With patterns no longer than the limit on \<open>int\<close> the
  run returns its summary.
\<close>

theorem simulated_run_only_logs:
  assumes "safe_mode A"
  shows "(patterns_within_int_limit E A \<longrightarrow>
      (\<exists>r w'. split_pdf_full E A doc w = Some (Inr r, w') \<and> files w' = files w \<and>
         (\<exists>new. trace w' = trace w @ new \<and> list_all is_log_effect new))) \<and>
    (\<exists>res w'. split_pdf_full E A doc w = Some (res, w') \<and> files w' = files w \<and>
       (\<exists>new. trace w' = trace w @ new \<and> list_all is_log_effect new) \<and>
       (res = Inl ValueError \<or> (\<exists>r. res = Inr r)))"
proof (cases "doc = []")
  case True
  then show ?thesis by (simp add: split_pdf_full_def Let_def)
next
  case False
  let ?st0 = "\<lparr>audit_rows = [], success = 0, failed = 0, decisions = []\<rparr>"
  let ?start = "(if has_callback A
    then [AppLog (SplitStarted (inp_path A)), Callback (SplitStarted (inp_path A))]
    else [AppLog (SplitStarted (inp_path A))])"
  define w1 where "w1 = log (has_callback A) (SplitStarted (inp_path A)) w"
  note split = split_pdf_full_safe [OF assms False, of E w, folded w1_def]
  have w1: "files w1 = files w" "trace w1 = trace w @ ?start" "list_all is_log_effect ?start"
    by (simp_all add: w1_def)
  have returns: "\<exists>r w'. split_pdf_full E A doc w = Some (Inr r, w') \<and> files w' = files w \<and>
      (\<exists>new. trace w' = trace w @ new \<and> list_all is_log_effect new)"
    if l: "page_loop E A None 0 doc (?st0, w1) = Some (Inr st, w2)" "files w2 = files w1"
      "trace w2 = trace w1 @ new2" "list_all is_log_effect new2" for st w2 new2
  proof -
    from finish_split_safe [OF assms, of E "length doc" st w2] obtain w3 new3 where f:
      "finish_split E A (length doc) st w2 =
         Some (\<lparr>sum_total = length doc, sum_success = success st, sum_failed = failed st,
                 sum_audit_path = None\<rparr>, w3)"
      "files w3 = files w2" "trace w3 = trace w2 @ new3" "list_all is_log_effect new3"
      by blast
    have "split_pdf_full E A doc w =
        Some (Inr \<lparr>sum_total = length doc, sum_success = success st, sum_failed = failed st,
                   sum_audit_path = None\<rparr>, w3)"
      using l(1) f(1) by (simp add: split)
    moreover have "files w3 = files w" using l(2) f(2) w1(1) by simp
    moreover have "trace w3 = trace w @ (?start @ new2 @ new3)"
      using l(3) f(3) w1(2) by simp
    moreover have "list_all is_log_effect (?start @ new2 @ new3)"
      using l(4) f(4) by simp
    ultimately show ?thesis by blast
  qed
  have fits: "\<exists>r w'. split_pdf_full E A doc w = Some (Inr r, w') \<and> files w' = files w \<and>
      (\<exists>new. trace w' = trace w @ new \<and> list_all is_log_effect new)"
    if "patterns_within_int_limit E A"
  proof -
    have "\<forall>t \<in> set doc. names_resolve E A t"
      using that by (simp add: names_resolve_fits)
    from page_loop_safe [OF assms this, of None 0 ?st0 w1] obtain st w2 new2 where
      "page_loop E A None 0 doc (?st0, w1) = Some (Inr st, w2)"
      "files w2 = files w1" "trace w2 = trace w1 @ new2" "list_all is_log_effect new2"
      by blast
    then show ?thesis by (rule returns)
  qed
  have ends: "\<exists>res w'. split_pdf_full E A doc w = Some (res, w') \<and> files w' = files w \<and>
      (\<exists>new. trace w' = trace w @ new \<and> list_all is_log_effect new) \<and>
      (res = Inl ValueError \<or> (\<exists>r. res = Inr r))"
  proof -
    from page_loop_safe_ends [OF assms, of E None 0 doc ?st0 w1] obtain res w2 new2 where l:
      "page_loop E A None 0 doc (?st0, w1) = Some (res, w2)"
      "files w2 = files w1" "trace w2 = trace w1 @ new2" "list_all is_log_effect new2"
      "res = Inl ValueError \<or> (\<exists>st. res = Inr st)"
      by blast
    from l(5) show ?thesis
    proof
      assume e: "res = Inl ValueError"
      with l(1) have "split_pdf_full E A doc w = Some (Inl ValueError, w2)"
        by (simp add: split)
      moreover have "files w2 = files w" using l(2) w1(1) by simp
      moreover have "trace w2 = trace w @ (?start @ new2)" using l(3) w1(2) by simp
      moreover have "list_all is_log_effect (?start @ new2)" using l(4) by simp
      ultimately show ?thesis by blast
    next
      assume "\<exists>st. res = Inr st"
      then obtain st where "res = Inr st" ..
      with l(1) have "page_loop E A None 0 doc (?st0, w1) = Some (Inr st, w2)" by simp
      from returns [OF this l(2,3,4)] show ?thesis by blast
    qed
  qed
  from fits ends show ?thesis by blast
qed

text \<open>A simulated run over the one-page document.\<close>

theorem simulated_run_only_logs_witness:
  "safe_mode sample_args \<and> patterns_within_int_limit sample_env sample_args \<and>
   (\<exists>r w'. split_pdf_full sample_env sample_args [asc ''Smith''] empty_world = Some (Inr r, w') \<and>
      files w' = files empty_world \<and>
      (\<exists>new. trace w' = trace empty_world @ new \<and> list_all is_log_effect new))"
proof -
  have s: "safe_mode sample_args" by (simp add: sample_args_def)
  from simulated_run_only_logs [OF s, of sample_env "[asc ''Smith'']" empty_world] s
    sample_conditions(1)
  show ?thesis by blast
qed

text \<open>
  C1 as stated allows no file system mutation at all. The simulated run over the one-page
  document appends seven lines to the application log.
\<close>

theorem simulated_run_appends_to_app_log:
  "split_pdf_full sample_env sample_args [asc ''Smith''] empty_world =
     Some (Inr \<lparr>sum_total = 1, sum_success = 0, sum_failed = 0, sum_audit_path = None\<rparr>,
       \<lparr>files = {||},
        trace = [AppLog (SplitStarted (asc ''in.pdf'')), AppLog (DebugPage 1),
                 AppLog (DebugLine 0 (asc ''Smith'')), AppLog DebugRule,
                 AppLog (SafeWouldSave 1 (asc ''out/Smith.pdf'')), AppLog SafeNoAudit,
                 AppLog (SplitFinished 1 0 0)]\<rparr>) \<and>
   safe_mode sample_args \<and>
   touches_filesystem (AppLog (SplitStarted (asc ''in.pdf'')))"
  using safe_run_smith by (simp add: sample_args_def)

text \<open>
  C3. Started on the same document with the same patterns, the page loop of a simulated
  run and the page loop of a live run take the same naming decisions page by page: those
  of the classifier of the specification, with the same status, file name, raw and
  normalized folder and target directory; and their audit rows agree on the page numbers,
  on both folder columns and on which pages are OK. Both loops come to an end with these
  decisions when neither pattern is longer than the limit on \<open>int\<close> and \<open>os.makedirs\<close>
  does not fail. Whatever the patterns and the environment are, whenever the live loop
  returns, the simulated loop returns as well, with the same decisions.
\<close>

theorem simulated_and_live_decisions_agree:
  "(patterns_within_int_limit E A \<and> out_dir A \<noteq> [] \<and> makedirs_never_fails E \<longrightarrow>
     (\<exists>st_s w_s st_l w_l.
        page_loop E (A\<lparr>safe_mode := True\<rparr>) None 0 doc
          (\<lparr>audit_rows = [], success = 0, failed = 0, decisions = []\<rparr>, w1) = Some (Inr st_s, w_s) \<and>
        page_loop E (A\<lparr>safe_mode := False\<rparr>) (Some (path_join (out_dir A) (asc ''!manual_review''))) 0 doc
          (\<lparr>audit_rows = [], success = 0, failed = 0, decisions = []\<rparr>, w2) = Some (Inr st_l, w_l) \<and>
        decisions st_s = map (spec_classify E A) doc \<and>
        decisions st_l = decisions st_s \<and>
        map Page (audit_rows st_s) = map Page (audit_rows st_l) \<and>
        map FolderRaw (audit_rows st_s) = map FolderRaw (audit_rows st_l) \<and>
        map FolderName (audit_rows st_s) = map FolderName (audit_rows st_l) \<and>
        map (\<lambda>r. Status r = asc ''OK (SAFE mode)'') (audit_rows st_s) =
          map (\<lambda>r. Status r = asc ''OK'') (audit_rows st_l))) \<and>
   (page_loop E (A\<lparr>safe_mode := False\<rparr>) (Some (path_join (out_dir A) (asc ''!manual_review''))) 0 doc
      (\<lparr>audit_rows = [], success = 0, failed = 0, decisions = []\<rparr>, w2) = Some (Inr st_l, w_l) \<longrightarrow>
     (\<exists>st_s w_s.
        page_loop E (A\<lparr>safe_mode := True\<rparr>) None 0 doc
          (\<lparr>audit_rows = [], success = 0, failed = 0, decisions = []\<rparr>, w1) = Some (Inr st_s, w_s) \<and>
        decisions st_s = map (spec_classify E A) doc \<and>
        decisions st_l = decisions st_s \<and>
        map Page (audit_rows st_s) = map Page (audit_rows st_l) \<and>
        map FolderRaw (audit_rows st_s) = map FolderRaw (audit_rows st_l) \<and>
        map FolderName (audit_rows st_s) = map FolderName (audit_rows st_l) \<and>
        map (\<lambda>r. Status r = asc ''OK (SAFE mode)'') (audit_rows st_s) =
          map (\<lambda>r. Status r = asc ''OK'') (audit_rows st_l)))"
proof -
  let ?st0 = "\<lparr>audit_rows = [], success = 0, failed = 0, decisions = []\<rparr>"
  let ?rd = "path_join (out_dir A) (asc ''!manual_review'')"
  have s: "safe_mode (A\<lparr>safe_mode := True\<rparr>)" and l: "\<not> safe_mode (A\<lparr>safe_mode := False\<rparr>)"
    by simp_all
  have agree: "\<exists>st_s w_s.
      page_loop E (A\<lparr>safe_mode := True\<rparr>) None 0 doc (?st0, w1) = Some (Inr st_s, w_s) \<and>
      decisions st_s = map (spec_classify E A) doc \<and>
      decisions st' = decisions st_s \<and>
      map Page (audit_rows st_s) = map Page (audit_rows st') \<and>
      map FolderRaw (audit_rows st_s) = map FolderRaw (audit_rows st') \<and>
      map FolderName (audit_rows st_s) = map FolderName (audit_rows st') \<and>
      map (\<lambda>r. Status r = asc ''OK (SAFE mode)'') (audit_rows st_s) =
        map (\<lambda>r. Status r = asc ''OK'') (audit_rows st')"
    if live: "page_loop E (A\<lparr>safe_mode := False\<rparr>) (Some ?rd) 0 doc (?st0, w2) = Some (Inr st', w')"
    for st' w'
  proof -
    from page_loop_live_returns [OF l live]
    have r: "\<forall>t \<in> set doc. names_resolve E A t"
      and b: "pages_recorded E (A\<lparr>safe_mode := False\<rparr>) (asc ''OK'') 0 doc ?st0 st'"
      by simp_all
    from b obtain rows_l where b:
      "decisions st' = map (spec_classify E A) doc"
      "audit_rows st' = rows_l"
      "map Page rows_l = [0 + 1..<0 + 1 + length doc]"
      "map FolderRaw rows_l = map (\<lambda>t. folder_raw (spec_classify E A t)) doc"
      "map FolderName rows_l = map (\<lambda>t. folder_name (spec_classify E A t)) doc"
      "map (\<lambda>r. Status r = asc ''OK'') rows_l = map (\<lambda>t. resolved (spec_classify E A t)) doc"
      unfolding pages_recorded_def by auto
    from r have "\<forall>t \<in> set doc. names_resolve E (A\<lparr>safe_mode := True\<rparr>) t" by simp
    from page_loop_safe [OF s this, of None 0 ?st0 w1] obtain st_s w_s where
      a0: "page_loop E (A\<lparr>safe_mode := True\<rparr>) None 0 doc (?st0, w1) = Some (Inr st_s, w_s)"
      and "pages_recorded E (A\<lparr>safe_mode := True\<rparr>) (asc ''OK (SAFE mode)'') 0 doc ?st0 st_s"
      by blast
    then obtain rows_s where a:
      "decisions st_s = map (spec_classify E A) doc"
      "audit_rows st_s = rows_s"
      "map Page rows_s = [0 + 1..<0 + 1 + length doc]"
      "map FolderRaw rows_s = map (\<lambda>t. folder_raw (spec_classify E A t)) doc"
      "map FolderName rows_s = map (\<lambda>t. folder_name (spec_classify E A t)) doc"
      "map (\<lambda>r. Status r = asc ''OK (SAFE mode)'') rows_s = map (\<lambda>t. resolved (spec_classify E A t)) doc"
      unfolding pages_recorded_def by auto
    have "decisions st' = decisions st_s" using a(1) b(1) by simp
    moreover have "map Page (audit_rows st_s) = map Page (audit_rows st')"
      using a(2,3) b(2,3) by simp
    moreover have "map FolderRaw (audit_rows st_s) = map FolderRaw (audit_rows st')"
      using a(2,4) b(2,4) by simp
    moreover have "map FolderName (audit_rows st_s) = map FolderName (audit_rows st')"
      using a(2,5) b(2,5) by simp
    moreover have "map (\<lambda>r. Status r = asc ''OK (SAFE mode)'') (audit_rows st_s) =
        map (\<lambda>r. Status r = asc ''OK'') (audit_rows st')"
      using a(2,6) b(2,6) by simp
    ultimately show ?thesis using a0 a(1) by blast
  qed
  show ?thesis
  proof (intro conjI impI)
    assume c: "patterns_within_int_limit E A \<and> out_dir A \<noteq> [] \<and> makedirs_never_fails E"
    then have "\<forall>t \<in> set doc. names_resolve E (A\<lparr>safe_mode := False\<rparr>) t"
      by (simp add: names_resolve_fits)
    moreover from c have "out_dir (A\<lparr>safe_mode := False\<rparr>) \<noteq> []" by simp
    ultimately obtain st_l w_l where
      live: "page_loop E (A\<lparr>safe_mode := False\<rparr>) (Some ?rd) 0 doc (?st0, w2) = Some (Inr st_l, w_l)"
      using page_loop_live_succeeds [OF l, of E doc ?rd 0 ?st0 w2] c by blast
    from agree [OF live] live
    show "\<exists>st_s w_s st_l w_l.
        page_loop E (A\<lparr>safe_mode := True\<rparr>) None 0 doc (?st0, w1) = Some (Inr st_s, w_s) \<and>
        page_loop E (A\<lparr>safe_mode := False\<rparr>) (Some ?rd) 0 doc (?st0, w2) = Some (Inr st_l, w_l) \<and>
        decisions st_s = map (spec_classify E A) doc \<and>
        decisions st_l = decisions st_s \<and>
        map Page (audit_rows st_s) = map Page (audit_rows st_l) \<and>
        map FolderRaw (audit_rows st_s) = map FolderRaw (audit_rows st_l) \<and>
        map FolderName (audit_rows st_s) = map FolderName (audit_rows st_l) \<and>
        map (\<lambda>r. Status r = asc ''OK (SAFE mode)'') (audit_rows st_s) =
          map (\<lambda>r. Status r = asc ''OK'') (audit_rows st_l)"
      by blast
  next
    assume "page_loop E (A\<lparr>safe_mode := False\<rparr>) (Some ?rd) 0 doc (?st0, w2) = Some (Inr st_l, w_l)"
    then show "\<exists>st_s w_s.
        page_loop E (A\<lparr>safe_mode := True\<rparr>) None 0 doc (?st0, w1) = Some (Inr st_s, w_s) \<and>
        decisions st_s = map (spec_classify E A) doc \<and>
        decisions st_l = decisions st_s \<and>
        map Page (audit_rows st_s) = map Page (audit_rows st_l) \<and>
        map FolderRaw (audit_rows st_s) = map FolderRaw (audit_rows st_l) \<and>
        map FolderName (audit_rows st_s) = map FolderName (audit_rows st_l) \<and>
        map (\<lambda>r. Status r = asc ''OK (SAFE mode)'') (audit_rows st_s) =
          map (\<lambda>r. Status r = asc ''OK'') (audit_rows st_l)"
      by (rule agree)
  qed
qed

text \<open>The two loops over a document whose second page is empty.\<close>

theorem simulated_and_live_decisions_agree_witness:
  "patterns_within_int_limit sample_env sample_args \<and> out_dir sample_args \<noteq> [] \<and>
   makedirs_never_fails sample_env \<and>
   (\<exists>st_s w_s st_l w_l.
     page_loop sample_env (sample_args\<lparr>safe_mode := True\<rparr>) None 0 [asc ''Smith'', []]
       (\<lparr>audit_rows = [], success = 0, failed = 0, decisions = []\<rparr>, empty_world) =
       Some (Inr st_s, w_s) \<and>
     page_loop sample_env (sample_args\<lparr>safe_mode := False\<rparr>)
       (Some (path_join (out_dir sample_args) (asc ''!manual_review''))) 0 [asc ''Smith'', []]
       (\<lparr>audit_rows = [], success = 0, failed = 0, decisions = []\<rparr>, empty_world) =
       Some (Inr st_l, w_l) \<and>
     decisions st_s = map (spec_classify sample_env sample_args) [asc ''Smith'', []] \<and>
     decisions st_l = decisions st_s \<and>
     map Page (audit_rows st_s) = map Page (audit_rows st_l) \<and>
     map FolderRaw (audit_rows st_s) = map FolderRaw (audit_rows st_l) \<and>
     map FolderName (audit_rows st_s) = map FolderName (audit_rows st_l) \<and>
     map (\<lambda>r. Status r = asc ''OK (SAFE mode)'') (audit_rows st_s) =
       map (\<lambda>r. Status r = asc ''OK'') (audit_rows st_l))"
  using simulated_and_live_decisions_agree [of sample_env sample_args "[asc ''Smith'', []]"
      empty_world empty_world] sample_conditions
  by blast

text \<open>
  C4, as the code has it. A live run over a document with at least one page calls
  \<open>os.makedirs\<close> on the output directory and then on \<open>!manual_review\<close> below it at its
  start, before the first page is looked at and whether or not a page will need it: the
  run ends, either with the \<open>OSError\<close> of one of these two calls, having done nothing
  else, or with both directories made the first thing after the start line. When
  \<open>os.makedirs\<close> does not fail and neither pattern is longer than the limit on \<open>int\<close>, the
  run returns its summary. A live run over a document without pages creates nothing.
\<close>

theorem review_dir_created_at_start:
  assumes "\<not> safe_mode A"
  shows "(doc \<noteq> [] \<and> patterns_within_int_limit E A \<and> out_dir A \<noteq> [] \<and> makedirs_never_fails E \<longrightarrow>
      (\<exists>r w' rest. split_pdf_full E A doc w = Some (Inr r, w') \<and>
         trace w' = trace (log (has_callback A) (SplitStarted (inp_path A)) w) @
           [MakeDirs (out_dir A), MakeDirs (path_join (out_dir A) (asc ''!manual_review''))] @ rest)) \<and>
    (doc \<noteq> [] \<longrightarrow>
      (\<exists>res w'. split_pdf_full E A doc w = Some (res, w') \<and>
         ((\<exists>e. res = Inl (OSError e)) \<and>
            trace w' = trace (log (has_callback A) (SplitStarted (inp_path A)) w) \<or>
          (\<exists>e. res = Inl (OSError e)) \<and>
            trace w' = trace (log (has_callback A) (SplitStarted (inp_path A)) w) @
              [MakeDirs (out_dir A)] \<or>
          (\<exists>rest. trace w' = trace (log (has_callback A) (SplitStarted (inp_path A)) w) @
              [MakeDirs (out_dir A), MakeDirs (path_join (out_dir A) (asc ''!manual_review''))] @
              rest)))) \<and>
    (doc = [] \<longrightarrow>
      split_pdf_full E A doc w =
        Some (Inr \<lparr>sum_total = 0, sum_success = 0, sum_failed = 0, sum_audit_path = None\<rparr>,
              log (has_callback A) NoPages (log (has_callback A) (SplitStarted (inp_path A)) w)))"
proof (intro conjI impI)
  assume "doc = []"
  then show "split_pdf_full E A doc w =
      Some (Inr \<lparr>sum_total = 0, sum_success = 0, sum_failed = 0, sum_audit_path = None\<rparr>,
            log (has_callback A) NoPages (log (has_callback A) (SplitStarted (inp_path A)) w))"
    by (simp add: split_pdf_full_def Let_def)
next
  assume c: "doc \<noteq> [] \<and> patterns_within_int_limit E A \<and> out_dir A \<noteq> [] \<and> makedirs_never_fails E"
  let ?st0 = "\<lparr>audit_rows = [], success = 0, failed = 0, decisions = []\<rparr>"
  define rd where "rd = path_join (out_dir A) (asc ''!manual_review'')"
  define w0 where "w0 = log (has_callback A) (SplitStarted (inp_path A)) w"
  from c make_run_dirs_live_succeeds [OF assms, of E w0] obtain w1 where d:
    "make_run_dirs E A w0 = (Inr (Some rd), w1)"
    "trace w1 = trace w0 @ [MakeDirs (out_dir A), MakeDirs rd]"
    unfolding rd_def by blast
  have "\<forall>t \<in> set doc. names_resolve E A t"
    using c by (simp add: names_resolve_fits)
  with c page_loop_live [OF assms, of E doc rd 0 ?st0 w1] obtain st w2 new2 where l:
    "page_loop E A (Some rd) 0 doc (?st0, w1) = Some (Inr st, w2)" "trace w2 = trace w1 @ new2"
    by blast
  from finish_split_live [OF assms, of E "length doc" st w2] obtain ap w3 new3 where f:
    "finish_split E A (length doc) st w2 =
       Some (\<lparr>sum_total = length doc, sum_success = success st, sum_failed = failed st,
               sum_audit_path = ap\<rparr>, w3)" "trace w3 = trace w2 @ new3"
    by blast
  have "split_pdf_full E A doc w =
      Some (Inr \<lparr>sum_total = length doc, sum_success = success st, sum_failed = failed st,
                 sum_audit_path = ap\<rparr>, w3)"
    using c d(1) l(1) f(1) by (simp add: split_pdf_full_def Let_def w0_def)
  moreover have "trace w3 = trace w0 @ [MakeDirs (out_dir A), MakeDirs rd] @ (new2 @ new3)"
    using d(2) l(2) f(2) by simp
  ultimately show "\<exists>r w' rest. split_pdf_full E A doc w = Some (Inr r, w') \<and>
      trace w' = trace (log (has_callback A) (SplitStarted (inp_path A)) w) @
        [MakeDirs (out_dir A), MakeDirs (path_join (out_dir A) (asc ''!manual_review''))] @ rest"
    unfolding w0_def rd_def by blast
next
  assume ne: "doc \<noteq> []"
  let ?st0 = "\<lparr>audit_rows = [], success = 0, failed = 0, decisions = []\<rparr>"
  define rd where "rd = path_join (out_dir A) (asc ''!manual_review'')"
  define w0 where "w0 = log (has_callback A) (SplitStarted (inp_path A)) w"
  have split: "split_pdf_full E A doc w =
    (case make_run_dirs E A w0 of
       (Inl e, w2) \<Rightarrow> Some (Inl e, w2)
     | (Inr review_dir, w2) \<Rightarrow>
         (case page_loop E A review_dir 0 doc (?st0, w2) of
            None \<Rightarrow> None
          | Some (Inl e, w3) \<Rightarrow> Some (Inl e, w3)
          | Some (Inr st, w3) \<Rightarrow>
              (case finish_split E A (length doc) st w3 of
                 None \<Rightarrow> None
               | Some (r, w4) \<Rightarrow> Some (Inr r, w4))))"
    using ne by (simp add: split_pdf_full_def Let_def w0_def)
  have "\<exists>res w'. split_pdf_full E A doc w = Some (res, w') \<and>
      ((\<exists>e. res = Inl (OSError e)) \<and> trace w' = trace w0 \<or>
       (\<exists>e. res = Inl (OSError e)) \<and> trace w' = trace w0 @ [MakeDirs (out_dir A)] \<or>
       (\<exists>rest. trace w' = trace w0 @ [MakeDirs (out_dir A), MakeDirs rd] @ rest))"
  proof -
    from make_run_dirs_live [OF assms, of E w0]
    consider (first) e where "make_run_dirs E A w0 = (Inl (OSError e), w0)"
      | (second) e w1 where "make_run_dirs E A w0 = (Inl (OSError e), w1)"
          "trace w1 = trace w0 @ [MakeDirs (out_dir A)]"
      | (made) w2 where "make_run_dirs E A w0 = (Inr (Some rd), w2)"
          "trace w2 = trace w0 @ [MakeDirs (out_dir A), MakeDirs rd]"
      unfolding rd_def by blast
    then show ?thesis
    proof cases
      case first
      then have "split_pdf_full E A doc w = Some (Inl (OSError e), w0)" by (simp add: split)
      then show ?thesis by blast
    next
      case second
      then have "split_pdf_full E A doc w = Some (Inl (OSError e), w1)" by (simp add: split)
      with second(2) show ?thesis by blast
    next
      case made
      from page_loop_live_ends [OF assms, of E rd 0 doc ?st0 w2] obtain res w3 new3 where l:
        "page_loop E A (Some rd) 0 doc (?st0, w2) = Some (res, w3)" "trace w3 = trace w2 @ new3"
        by blast
      show ?thesis
      proof (cases res)
        case (Inl e)
        with made(1) l(1) have "split_pdf_full E A doc w = Some (Inl e, w3)"
          by (simp add: split)
        moreover have "trace w3 = trace w0 @ [MakeDirs (out_dir A), MakeDirs rd] @ new3"
          using made(2) l(2) by simp
        ultimately show ?thesis by blast
      next
        case (Inr st)
        from finish_split_live [OF assms, of E "length doc" st w3] obtain ap w4 new4 where f:
          "finish_split E A (length doc) st w3 =
             Some (\<lparr>sum_total = length doc, sum_success = success st, sum_failed = failed st,
                     sum_audit_path = ap\<rparr>, w4)" "trace w4 = trace w3 @ new4"
          by blast
        with Inr made(1) l(1) have "split_pdf_full E A doc w =
            Some (Inr \<lparr>sum_total = length doc, sum_success = success st, sum_failed = failed st,
                       sum_audit_path = ap\<rparr>, w4)"
          by (simp add: split)
        moreover have "trace w4 = trace w0 @ [MakeDirs (out_dir A), MakeDirs rd] @ (new3 @ new4)"
          using made(2) l(2) f(2) by simp
        ultimately show ?thesis by blast
      qed
    qed
  qed
  then show "\<exists>res w'. split_pdf_full E A doc w = Some (res, w') \<and>
      ((\<exists>e. res = Inl (OSError e)) \<and>
         trace w' = trace (log (has_callback A) (SplitStarted (inp_path A)) w) \<or>
       (\<exists>e. res = Inl (OSError e)) \<and>
         trace w' = trace (log (has_callback A) (SplitStarted (inp_path A)) w) @
           [MakeDirs (out_dir A)] \<or>
       (\<exists>rest. trace w' = trace (log (has_callback A) (SplitStarted (inp_path A)) w) @
           [MakeDirs (out_dir A), MakeDirs (path_join (out_dir A) (asc ''!manual_review''))] @
           rest))"
    unfolding w0_def rd_def .
qed

text \<open>A live run over the one-page document, and one over the empty document.\<close>

theorem review_dir_created_at_start_witness:
  "\<not> safe_mode (sample_args\<lparr>safe_mode := False\<rparr>) \<and> [asc ''Smith''] \<noteq> [] \<and>
   patterns_within_int_limit sample_env (sample_args\<lparr>safe_mode := False\<rparr>) \<and>
   out_dir (sample_args\<lparr>safe_mode := False\<rparr>) \<noteq> [] \<and> makedirs_never_fails sample_env \<and>
   (\<exists>r w' rest.
      split_pdf_full sample_env (sample_args\<lparr>safe_mode := False\<rparr>) [asc ''Smith''] empty_world =
        Some (Inr r, w') \<and>
      trace w' =
        trace (log (has_callback (sample_args\<lparr>safe_mode := False\<rparr>))
                 (SplitStarted (inp_path (sample_args\<lparr>safe_mode := False\<rparr>))) empty_world) @
        [MakeDirs (out_dir (sample_args\<lparr>safe_mode := False\<rparr>)),
         MakeDirs (path_join (out_dir (sample_args\<lparr>safe_mode := False\<rparr>)) (asc ''!manual_review''))] @
        rest) \<and>
   split_pdf_full sample_env (sample_args\<lparr>safe_mode := False\<rparr>) [] empty_world =
     Some (Inr \<lparr>sum_total = 0, sum_success = 0, sum_failed = 0, sum_audit_path = None\<rparr>,
           log (has_callback (sample_args\<lparr>safe_mode := False\<rparr>)) NoPages
             (log (has_callback (sample_args\<lparr>safe_mode := False\<rparr>))
                (SplitStarted (inp_path (sample_args\<lparr>safe_mode := False\<rparr>))) empty_world))"
proof -
  have l: "\<not> safe_mode (sample_args\<lparr>safe_mode := False\<rparr>)" by simp
  have c: "patterns_within_int_limit sample_env (sample_args\<lparr>safe_mode := False\<rparr>)"
    "out_dir (sample_args\<lparr>safe_mode := False\<rparr>) \<noteq> []" "makedirs_never_fails sample_env"
    using sample_conditions by simp_all
  from review_dir_created_at_start [OF l, of "[asc ''Smith'']" sample_env empty_world]
    review_dir_created_at_start [OF l, of "[]" sample_env empty_world] c
  show ?thesis by simp
qed

text \<open>
  C4 as stated has the directory created only for a page without a valid name. In the
  live run over the one-page document the page is saved under its name and nothing goes
  to manual review, yet the directory is made.
\<close>

theorem review_dir_created_without_failed_page:
  "(case split_pdf_full sample_env (sample_args\<lparr>safe_mode := False\<rparr>) [asc ''Smith''] empty_world of
      Some (Inr r, w') \<Rightarrow>
        sum_total r = 1 \<and> sum_success r = 1 \<and> sum_failed r = 0 \<and>
        MakeDirs (asc ''out/!manual_review'') \<in> set (trace w')
    | _ \<Rightarrow> False)"
  using live_run_smith by simp

text \<open>
  A run whose patterns are no longer than the limit on \<open>int\<close>, and for which \<open>os.makedirs\<close>
  does not fail if it is a live one, returns a summary whose total is the number of pages
  and whose failed count is the number of pages without a valid file name. In a live run
  every other page raises the success count, so that success and failed add up to the
  total; in a simulated run the success count is not raised.
\<close>

lemma run_summary_counts:
  assumes "patterns_within_int_limit E A"
    and "safe_mode A \<or> out_dir A \<noteq> [] \<and> makedirs_never_fails E"
  shows "\<exists>r w'. split_pdf_full E A doc w = Some (Inr r, w') \<and>
     sum_total r = length doc \<and>
     sum_failed r = length (filter (\<lambda>t. \<not> resolved (spec_classify E A t)) doc) \<and>
     (if safe_mode A then sum_success r = 0
      else sum_success r + sum_failed r = sum_total r)"
proof (cases "doc = []")
  case True
  then show ?thesis by (simp add: split_pdf_full_def Let_def)
next
  case False
  let ?st0 = "\<lparr>audit_rows = [], success = 0, failed = 0, decisions = []\<rparr>"
  have res: "\<forall>t \<in> set doc. names_resolve E A t"
    using assms(1) by (simp add: names_resolve_fits)
  show ?thesis
  proof (cases "safe_mode A")
    case True
    define w1 where "w1 = log (has_callback A) (SplitStarted (inp_path A)) w"
    from page_loop_safe [OF True res, of None 0 ?st0 w1] obtain st w2 where l:
      "page_loop E A None 0 doc (?st0, w1) = Some (Inr st, w2)"
      "success st = 0"
      "failed st = length (filter (\<lambda>t. \<not> resolved (spec_classify E A t)) doc)"
      unfolding pages_recorded_def by auto
    from finish_split_safe [OF True, of E "length doc" st w2] obtain w3 where f:
      "finish_split E A (length doc) st w2 =
         Some (\<lparr>sum_total = length doc, sum_success = success st, sum_failed = failed st,
                 sum_audit_path = None\<rparr>, w3)"
      by blast
    have "split_pdf_full E A doc w =
        Some (Inr \<lparr>sum_total = length doc, sum_success = success st, sum_failed = failed st,
                   sum_audit_path = None\<rparr>, w3)"
      using l(1) f(1) by (simp add: split_pdf_full_safe [OF True False] w1_def)
    with True l(2,3) show ?thesis by simp
  next
    case live: False
    with assms(2) have c: "out_dir A \<noteq> []" "makedirs_never_fails E" by simp_all
    define rd where "rd = path_join (out_dir A) (asc ''!manual_review'')"
    define w0 where "w0 = log (has_callback A) (SplitStarted (inp_path A)) w"
    from make_run_dirs_live_succeeds [OF live c, of w0] obtain w1 where d:
      "make_run_dirs E A w0 = (Inr (Some rd), w1)"
      unfolding rd_def by blast
    from page_loop_live [OF live c res, of rd 0 ?st0 w1] obtain st w2 where l:
      "page_loop E A (Some rd) 0 doc (?st0, w1) = Some (Inr st, w2)"
      "success st = length (filter (\<lambda>t. resolved (spec_classify E A t)) doc)"
      "failed st = length (filter (\<lambda>t. \<not> resolved (spec_classify E A t)) doc)"
      unfolding pages_recorded_def by auto
    from finish_split_live [OF live, of E "length doc" st w2] obtain ap w3 where f:
      "finish_split E A (length doc) st w2 =
         Some (\<lparr>sum_total = length doc, sum_success = success st, sum_failed = failed st,
                 sum_audit_path = ap\<rparr>, w3)"
      by blast
    have "split_pdf_full E A doc w =
        Some (Inr \<lparr>sum_total = length doc, sum_success = success st, sum_failed = failed st,
                   sum_audit_path = ap\<rparr>, w3)"
      using False d l(1) f(1) by (simp add: split_pdf_full_def Let_def w0_def)
    moreover have "success st + failed st = length doc"
      using l(2,3) sum_length_filter_compl [of "\<lambda>t. resolved (spec_classify E A t)" doc] by simp
    ultimately show ?thesis using live l(3) by simp
  qed
qed

text \<open>
  C9 wants success and failed to add up to the total in every run. The line
  \<open>failed += 1\<close> comes before the loop body asks for \<open>safe_mode\<close>, but \<open>success += 1\<close> comes
  after the \<open>continue\<close> of the SAFE branch: a page that a simulated run records as
  \<open>OK (SAFE mode)\<close> is counted by neither. The simulated run over a document of two pages,
  the first with the line \<open>Smith\<close> and the second empty, returns total 2, success 0 and
  failed 1.
\<close>

theorem simulated_run_counts_no_success:
  "map_option fst (split_pdf_full sample_env sample_args [asc ''Smith'', []] empty_world) =
     Some (Inr \<lparr>sum_total = 2, sum_success = 0, sum_failed = 1, sum_audit_path = None\<rparr>)"
  by (simp add: run_eval)

section \<open>The folder-name normalizer: claim C10\<close>

lemma strip_prefix_head:
  "strip_prefix (a # old) s = Some r \<Longrightarrow> a \<in> set s"
  by (cases s) (auto split: if_splits)

lemma replace_str_absent:
  "a \<notin> set s \<Longrightarrow> replace_str (a # old) new s = s"
proof (induction s)
  case Nil
  show ?case by simp
next
  case (Cons c cs)
  then have "strip_prefix (a # old) (c # cs) = None"
    using strip_prefix_head [of a old "c # cs"] by (cases "strip_prefix (a # old) (c # cs)") auto
  with Cons show ?case by simp
qed

lemma repl_ascii:
  assumes "list_all (\<lambda>c. c < 128) s"
  shows "foldl (\<lambda>name (k, v). replace_str k v name) s repl = s"
proof -
  have a: "402 \<notin> set s" "8776 \<notin> set s"
    using assms by (auto simp: list_all_iff)
  then show ?thesis by (simp add: repl_def replace_str_absent)
qed

lemma normalize_ascii:
  assumes "list_all (\<lambda>c. c < 128) s"
  shows "normalize_folder_name U s = map ascii_lower (filter (is_word U) s)"
proof -
  have "list_all (\<lambda>c. c < 128) (filter (is_word U) s)"
    using assms by (auto simp: list_all_iff)
  then show ?thesis
    by (simp add: normalize_folder_name_def repl_ascii [OF assms] py_lower_def)
qed

lemma ascii_lower_word:
  assumes "c < 128" and "is_word U c"
  shows "(48 \<le> ascii_lower c \<and> ascii_lower c \<le> 57) \<or> ascii_lower c = 95 \<or>
    (97 \<le> ascii_lower c \<and> ascii_lower c \<le> 122)"
  using assms by (auto simp: is_word_def ascii_lower_def)

lemma lower_word_fixed:
  assumes "(48 \<le> c \<and> c \<le> 57) \<or> c = 95 \<or> (97 \<le> c \<and> c \<le> 122)"
  shows "c < 128 \<and> is_word U c \<and> ascii_lower c = c"
  using assms by (auto simp: is_word_def ascii_lower_def)

lemmas normalize_eval =
  normalize_folder_name_def repl_def py_lower_def is_word_def ascii_lower_def asc_def
  sample_ucd_def

text \<open>
  C10, as the code has it. For every input, what reaches the final \<open>lower()\<close> consists of
  word characters only. For every ASCII input the output consists of lower-case ASCII
  letters, digits and underscores, so it holds no upper-case letter, blank, dot or path
  separator, and normalizing it again returns it unchanged.
\<close>

theorem normalize_folder_name_on_ascii:
  "(\<exists>w. list_all (is_word U) w \<and> normalize_folder_name U name = py_lower U w) \<and>
   (list_all (\<lambda>c. c < 128) name \<longrightarrow>
      list_all (\<lambda>c. (48 \<le> c \<and> c \<le> 57) \<or> c = 95 \<or> (97 \<le> c \<and> c \<le> 122))
        (normalize_folder_name U name) \<and>
      normalize_folder_name U (normalize_folder_name U name) = normalize_folder_name U name)"
proof (intro conjI impI)
  show "\<exists>w. list_all (is_word U) w \<and> normalize_folder_name U name = py_lower U w"
    by (rule exI [of _ "filter (is_word U) (foldl (\<lambda>name (k, v). replace_str k v name) name repl)"])
      (simp add: normalize_folder_name_def list_all_iff)
next
  assume a: "list_all (\<lambda>c. c < 128) name"
  let ?out = "normalize_folder_name U name"
  have out: "?out = map ascii_lower (filter (is_word U) name)"
    using a by (rule normalize_ascii)
  show cs: "list_all (\<lambda>c. (48 \<le> c \<and> c \<le> 57) \<or> c = 95 \<or> (97 \<le> c \<and> c \<le> 122)) ?out"
    unfolding out list_all_iff
  proof
    fix d assume "d \<in> set (map ascii_lower (filter (is_word U) name))"
    then obtain c where "c \<in> set name" "is_word U c" "d = ascii_lower c" by auto
    moreover from this a have "c < 128" by (simp add: list_all_iff)
    ultimately show "(48 \<le> d \<and> d \<le> 57) \<or> d = 95 \<or> (97 \<le> d \<and> d \<le> 122)"
      using ascii_lower_word [of c U] by simp
  qed
  have fixed: "\<forall>c \<in> set ?out. c < 128 \<and> is_word U c \<and> ascii_lower c = c"
    using cs lower_word_fixed [of _ U] unfolding list_all_iff by blast
  then have "list_all (\<lambda>c. c < 128) ?out" by (simp add: list_all_iff)
  then have "normalize_folder_name U ?out = map ascii_lower (filter (is_word U) ?out)"
    by (rule normalize_ascii)
  also have "filter (is_word U) ?out = ?out" using fixed by (simp add: filter_id_conv)
  also have "map ascii_lower ?out = ?out" using fixed by (simp add: map_idI)
  finally show "normalize_folder_name U ?out = ?out" .
qed

text \<open>An ASCII name with a blank, a hyphen, a slash and a dot.\<close>

theorem normalize_folder_name_on_ascii_witness:
  "(\<exists>w. list_all (is_word sample_ucd) w \<and>
      normalize_folder_name sample_ucd (asc ''John Doe-3/x.Y'') = py_lower sample_ucd w) \<and>
   list_all (\<lambda>c. c < 128) (asc ''John Doe-3/x.Y'') \<and>
   normalize_folder_name sample_ucd (asc ''John Doe-3/x.Y'') = asc ''johndoe3xy'' \<and>
   normalize_folder_name sample_ucd (asc ''johndoe3xy'') = asc ''johndoe3xy''"
proof -
  have a: "list_all (\<lambda>c. c < 128) (asc ''John Doe-3/x.Y'')" by (simp add: asc_def)
  have v: "normalize_folder_name sample_ucd (asc ''John Doe-3/x.Y'') = asc ''johndoe3xy''"
    by (simp add: normalize_eval)
  from normalize_folder_name_on_ascii [of sample_ucd "asc ''John Doe-3/x.Y''"] a v show ?thesis by simp
qed

text \<open>
  C10 as stated holds for every input. Lower-casing U+0130 gives \<open>i\<close> followed by the
  combining dot U+0307, which is not a word character and which a second pass strips; and
  taking the hyphen out of U+0192, hyphen, U+00E7 joins the two halves of the first key of
  the table, which a second pass replaces by \<open>c\<close>.
\<close>

theorem normalize_folder_name_not_idempotent:
  "normalize_folder_name sample_ucd [304] = [105, 775] \<and>
   \<not> list_all (is_word sample_ucd) (normalize_folder_name sample_ucd [304]) \<and>
   normalize_folder_name sample_ucd (normalize_folder_name sample_ucd [304]) \<noteq>
     normalize_folder_name sample_ucd [304] \<and>
   normalize_folder_name sample_ucd [402, 45, 231] = [402, 231] \<and>
   normalize_folder_name sample_ucd (normalize_folder_name sample_ucd [402, 45, 231]) \<noteq>
     normalize_folder_name sample_ucd [402, 45, 231]"
  by (simp add: normalize_eval)

section \<open>Page extraction: claim C8\<close>









end
